theory Spec2Isabelle
  imports Main
begin

section \<open>Python strings\<close>

text \<open>
  A Python \<^verbatim>\<open>str\<close> is a sequence of Unicode code points.  It is modelled as a list of
  integers, one per code point; \<open>ustr\<close> embeds an ASCII literal.  The helpers below
  are the string methods and library routines that \<^verbatim>\<open>local_processor.py\<close> and
  \<^verbatim>\<open>medsearch.py\<close> call.
\<close>

type_synonym str = "int list"

definition ustr :: "string \<Rightarrow> str" where
  "ustr s = map of_char s"

text \<open>\<^verbatim>\<open>p.rfind(c)\<close> for a one-character needle: the highest index of \<open>c\<close>, or -1.\<close>

fun rfind_from :: "int \<Rightarrow> str \<Rightarrow> int \<Rightarrow> int \<Rightarrow> int" where
  "rfind_from c [] i best = best"
| "rfind_from c (x # xs) i best = rfind_from c xs (i + 1) (if x = c then i else best)"

definition rfind :: "str \<Rightarrow> int \<Rightarrow> int" where
  "rfind p c = rfind_from c p 0 (- 1)"

text \<open>
  \<^verbatim>\<open>s.replace(old, new)\<close>: every non-overlapping occurrence of \<open>old\<close>, leftmost first.
  With an empty \<open>old\<close> Python puts \<open>new\<close> before every character and at the end.
\<close>

function str_replace :: "str \<Rightarrow> str \<Rightarrow> str \<Rightarrow> str" where
  "str_replace old new s =
     (if old = [] then new @ concat (map (\<lambda>c. c # new) s)
      else if s = [] then []
      else if take (length old) s = old then new @ str_replace old new (drop (length old) s)
      else hd s # str_replace old new (tl s))"
  by pat_completeness auto
termination
  by (relation "measure (\<lambda>(old, new, s). length s)") auto

text \<open>
  \<^verbatim>\<open>os.path.splitext\<close> (the POSIX flavour: separator \<open>/\<close>, code point 47, no alternative
  separator; the extension separator is the dot, code point 46).  The loop skips the dots
  that start the last path component: a name made of dots only, or a dot file, has no
  extension.
\<close>

function splitext_loop :: "str \<Rightarrow> int \<Rightarrow> int \<Rightarrow> str \<times> str" where
  "splitext_loop p filenameIndex dotIndex =
     (if filenameIndex < dotIndex then
        (if take 1 (drop (nat filenameIndex) p) \<noteq> [46]
         then (take (nat dotIndex) p, drop (nat dotIndex) p)
         else splitext_loop p (filenameIndex + 1) dotIndex)
      else (p, []))"
  by pat_completeness auto
termination
  by (relation "measure (\<lambda>(p, f, d). nat (d - f))") auto

definition splitext :: "str \<Rightarrow> str \<times> str" where
  "splitext p =
     (let sepIndex = rfind p (47::int);
          dotIndex = rfind p (46::int)
      in if dotIndex > sepIndex then splitext_loop p (sepIndex + 1) dotIndex else (p, []))"

text \<open>
  \<^verbatim>\<open>str.isspace\<close>, which is also the class \<^verbatim>\<open>\s\<close> of \<^verbatim>\<open>re\<close> on \<^verbatim>\<open>str\<close> patterns: the 29
  whitespace code points of Unicode.
\<close>

definition py_isspace :: "int \<Rightarrow> bool" where
  "py_isspace c =
     ((9 \<le> c \<and> c \<le> 13) \<or> (28 \<le> c \<and> c \<le> 32) \<or> c = 133 \<or> c = 160 \<or> c = 5760
      \<or> (8192 \<le> c \<and> c \<le> 8202) \<or> c = 8232 \<or> c = 8233 \<or> c = 8239 \<or> c = 8287 \<or> c = 12288)"

text \<open>
  The decimal digits (\<^verbatim>\<open>\d\<close>) and the word characters (\<^verbatim>\<open>\w\<close>: alphanumeric or underscore,
  which decide \<^verbatim>\<open>\b\<close>) are properties of Python's Unicode character database.  Below
  code point 256 they are written out; from there on the database is a parameter of the
  model, and every theorem holds whatever it says.
\<close>

record unicode_db =
  unicode_decimal :: "int \<Rightarrow> bool"
  unicode_word :: "int \<Rightarrow> bool"

definition py_isdecimal :: "unicode_db \<Rightarrow> int \<Rightarrow> bool" where
  "py_isdecimal db c = (if c < 256 then 48 \<le> c \<and> c \<le> 57 else unicode_decimal db c)"

definition py_isword :: "unicode_db \<Rightarrow> int \<Rightarrow> bool" where
  "py_isword db c =
     (if c < 256 then
        (48 \<le> c \<and> c \<le> 57) \<or> (65 \<le> c \<and> c \<le> 90) \<or> c = 95 \<or> (97 \<le> c \<and> c \<le> 122)
        \<or> c = 170 \<or> c = 178 \<or> c = 179 \<or> c = 181 \<or> c = 185 \<or> c = 186
        \<or> (188 \<le> c \<and> c \<le> 190) \<or> (192 \<le> c \<and> c \<le> 214)
        \<or> (216 \<le> c \<and> c \<le> 246) \<or> (248 \<le> c \<and> c \<le> 255)
      else unicode_word db c)"

text \<open>\<^verbatim>\<open>s.strip()\<close>: leading and trailing whitespace removed.\<close>

definition py_strip :: "str \<Rightarrow> str" where
  "py_strip s = rev (dropWhile py_isspace (rev (dropWhile py_isspace s)))"

text \<open>\<^verbatim>\<open>s.endswith(suffix)\<close>.\<close>

definition endswith :: "str \<Rightarrow> str \<Rightarrow> bool" where
  "endswith s suffix = (length suffix \<le> length s \<and> drop (length s - length suffix) s = suffix)"

text \<open>
  \<^verbatim>\<open>f"{i:03d}"\<close> for an index of \<^verbatim>\<open>enumerate\<close>: the decimal digits (code points 48 to 57),
  filled with zeros to width 3.
\<close>

definition digit_char :: "nat \<Rightarrow> int" where
  "digit_char d = 48 + int d"

function decimal :: "nat \<Rightarrow> str" where
  "decimal n = (if n < 10 then [digit_char n] else decimal (n div 10) @ [digit_char (n mod 10)])"
  by pat_completeness auto
termination
  by (relation "measure id") auto

definition format_03d :: "nat \<Rightarrow> str" where
  "format_03d i = (let ds = decimal i in replicate (3 - length ds) (48::int) @ ds)"

section \<open>Chunk identifiers (local\_processor.py, line 207)\<close>

definition format_chunk_id :: "str \<Rightarrow> nat \<Rightarrow> str" where
  "format_chunk_id blob_name i =
     str_replace [32] [95] (fst (splitext blob_name)) @ ustr ''_chunk_'' @ format_03d i"

text \<open>
  The words of the specification, on lists.  The last path component of a name is what
  follows its last slash.  The name without extension is the name cut before the last dot
  of its last path component; a name whose last path component has no dot is left as it
  is.
\<close>

definition basename :: "str \<Rightarrow> str" where
  "basename name = rev (takeWhile (\<lambda>c. c \<noteq> (47::int)) (rev name))"

definition strip_extension :: "str \<Rightarrow> str" where
  "strip_extension name =
     (if (46::int) \<in> set (basename name)
      then rev (tl (dropWhile (\<lambda>c. c \<noteq> (46::int)) (rev name)))
      else name)"

text \<open>
  A dot file: the last path component has a dot, and nothing but dots stands before its
  last dot (\<^verbatim>\<open>.pdf\<close>, \<^verbatim>\<open>reports/.pdf\<close>, \<^verbatim>\<open>..pdf\<close>).
\<close>

definition dot_file :: "str \<Rightarrow> bool" where
  "dot_file name =
     ((46::int) \<in> set (basename name)
      \<and> (46::int) \<notin> set (dropWhile (\<lambda>c. c = (46::int)) (basename name)))"

definition spaces_to_underscores :: "str \<Rightarrow> str" where
  "spaces_to_underscores s = map (\<lambda>c. if c = (32::int) then (95::int) else c) s"

text \<open>
  The index zero-padded to three digits: a string of decimal digits whose value is the
  index, of length three, or longer when the index needs more digits (then without a
  leading zero).
\<close>

definition digits_value :: "str \<Rightarrow> nat" where
  "digits_value ds = foldl (\<lambda>acc c. 10 * acc + nat (c - 48)) 0 ds"

definition zero_padded_index :: "nat \<Rightarrow> str \<Rightarrow> bool" where
  "zero_padded_index i ds =
     (list_all (\<lambda>c. 48 \<le> c \<and> c \<le> 57) ds \<and> digits_value ds = i
      \<and> (length ds = 3 \<or> (3 < length ds \<and> hd ds \<noteq> 48)))"

text \<open>What \<^verbatim>\<open>splitext\<close> returns first, on lists: a dot file keeps its whole name.\<close>

definition without_extension :: "str \<Rightarrow> str" where
  "without_extension name =
     (if (46::int) \<in> set (dropWhile (\<lambda>c. c = (46::int)) (basename name))
      then rev (tl (dropWhile (\<lambda>c. c \<noteq> (46::int)) (rev name)))
      else name)"

subsection \<open>What the library routines compute\<close>

declare str_replace.simps [simp del] splitext_loop.simps [simp del] decimal.simps [simp del]

lemma str_replace_char:
  "str_replace [a] [b] s = map (\<lambda>c. if c = a then b else c) s"
proof (induction s)
  case Nil
  show ?case by (subst str_replace.simps) simp
next
  case (Cons x xs)
  show ?case by (subst str_replace.simps) (simp add: Cons)
qed

lemma rfind_from_absent: "c \<notin> set xs \<Longrightarrow> rfind_from c xs i best = best"
  by (induction xs arbitrary: i best) auto

lemma rfind_from_last:
  "c \<notin> set post \<Longrightarrow> rfind_from c (pre @ c # post) i best = i + int (length pre)"
  by (induction pre arbitrary: i best) (auto simp: rfind_from_absent)

lemma rfind_absent: "c \<notin> set p \<Longrightarrow> rfind p c = - 1"
  by (simp add: rfind_def rfind_from_absent)

lemma rfind_last: "c \<notin> set post \<Longrightarrow> rfind (pre @ c # post) c = int (length pre)"
  by (simp add: rfind_def rfind_from_last)

lemma splitext_loop_segment:
  "splitext_loop (a @ b @ c) (int (length a)) (int (length a + length b)) =
     (if \<forall>x\<in>set b. x = (46::int) then (a @ b @ c, []) else (a @ b, c))"
proof (induction b arbitrary: a)
  case Nil
  show ?case by (subst splitext_loop.simps) simp
next
  case (Cons x b)
  have step: "int (length a) + 1 = int (length (a @ [x]))" by simp
  have "splitext_loop ((a @ [x]) @ b @ c) (int (length (a @ [x]))) (int (length (a @ [x]) + length b)) =
     (if \<forall>x\<in>set b. x = (46::int) then ((a @ [x]) @ b @ c, []) else ((a @ [x]) @ b, c))"
    by (rule Cons.IH)
  then have IH: "splitext_loop (a @ x # b @ c) (int (length a) + 1) (int (length a + length (x # b))) =
     (if \<forall>x\<in>set b. x = (46::int) then (a @ x # b @ c, []) else (a @ x # b, c))"
    by (simp add: add.commute)
  show ?case
  proof (cases "x = (46::int)")
    case True
    with IH show ?thesis by (subst splitext_loop.simps) (simp add: nat_add_distrib)
  next
    case False
    then show ?thesis by (subst splitext_loop.simps) (simp add: nat_add_distrib)
  qed
qed

lemma takeWhile_all: "(\<And>x. x \<in> set xs \<Longrightarrow> P x) \<Longrightarrow> takeWhile P xs = xs"
  by (simp add: takeWhile_eq_all_conv)

lemma takeWhile_rev_all: "c \<notin> set p \<Longrightarrow> takeWhile (\<lambda>x. x \<noteq> c) (rev p) = rev p"
  by (rule takeWhile_all) auto

lemma basename_no_sep: "(47::int) \<notin> set p \<Longrightarrow> basename p = p"
  by (simp add: basename_def takeWhile_rev_all)

lemma basename_after_sep: "(47::int) \<notin> set b \<Longrightarrow> basename (a @ (47::int) # b) = b"
  by (simp add: basename_def takeWhile_tail takeWhile_rev_all)

lemma rfind_ge: "- 1 \<le> rfind p c"
proof (cases "c \<in> set p")
  case True
  from split_list_last[OF True] obtain pre post where p: "p = pre @ c # post" and post: "c \<notin> set post"
    by blast
  have "rfind p c = int (length pre)" unfolding p using post by (rule rfind_last)
  then show ?thesis by simp
next
  case False
  then show ?thesis by (simp add: rfind_absent)
qed

lemma set_dropWhile_subset: "set (dropWhile P xs) \<subseteq> set xs"
  by (auto dest: set_dropWhileD)

lemma set_basename_subset: "set (basename p) \<subseteq> set p"
  by (auto simp: basename_def dest: set_takeWhileD)

lemma dropWhile_dots_only:
  "\<forall>x\<in>set b. x = c \<Longrightarrow> c \<notin> set post \<Longrightarrow> c \<notin> set (dropWhile (\<lambda>x. x = c) (b @ c # post))"
proof -
  assume b: "\<forall>x\<in>set b. x = c" and post: "c \<notin> set post"
  have "dropWhile (\<lambda>x. x = c) (b @ c # post) = dropWhile (\<lambda>x. x = c) post"
    using b by (simp add: dropWhile_append2)
  moreover have "set (dropWhile (\<lambda>x. x = c) post) \<subseteq> set post"
    by (rule set_dropWhile_subset)
  ultimately show ?thesis using post by auto
qed

lemma dropWhile_dots_some:
  "\<not> (\<forall>x\<in>set b. x = c) \<Longrightarrow> c \<in> set (dropWhile (\<lambda>x. x = c) (b @ c # post))"
proof -
  assume "\<not> (\<forall>x\<in>set b. x = c)"
  then obtain x where "x \<in> set b" "\<not> x = c" by blast
  then have "dropWhile (\<lambda>x. x = c) (b @ c # post) = dropWhile (\<lambda>x. x = c) b @ c # post"
    by (simp add: dropWhile_append1)
  then show ?thesis by simp
qed

lemma stem_before_last_dot:
  "c \<notin> set post \<Longrightarrow> rev (tl (dropWhile (\<lambda>x. x \<noteq> c) (rev (pre @ c # post)))) = pre"
proof -
  assume "c \<notin> set post"
  then have "dropWhile (\<lambda>x. x \<noteq> c) (rev post @ c # rev pre) = dropWhile (\<lambda>x. x \<noteq> c) (c # rev pre)"
    by (intro dropWhile_append2) auto
  then show ?thesis by simp
qed

lemma splitext_eq:
  "splitext name =
     (if without_extension name = name then (name, [])
      else (without_extension name, drop (length (without_extension name)) name))"
  and without_extension_prefix: "take (length (without_extension name)) name = without_extension name"
proof -
  have "splitext name =
     (if without_extension name = name then (name, [])
      else (without_extension name, drop (length (without_extension name)) name))
    \<and> take (length (without_extension name)) name = without_extension name"
  proof (cases "(46::int) \<in> set name")
    case False
    then have "rfind name (46::int) = - 1" by (simp add: rfind_absent)
    then have 1: "splitext name = (name, [])"
      using rfind_ge[of name "(47::int)"] by (simp add: splitext_def Let_def)
    have "set (dropWhile (\<lambda>c. c = (46::int)) (basename name)) \<subseteq> set name"
      using set_dropWhile_subset[of "\<lambda>c. c = (46::int)" "basename name"] set_basename_subset[of name] by blast
    with False have "without_extension name = name"
      by (auto simp: without_extension_def)
    with 1 show ?thesis by simp
  next
    case True
    from split_list_last[OF True]
    obtain pre post where name: "name = pre @ (46::int) # post" and post: "(46::int) \<notin> set post"
      by blast
    have dot: "rfind name (46::int) = int (length pre)"
      using post by (simp add: name rfind_last)
    show ?thesis
    proof (cases "(47::int) \<in> set post")
      case True
      from split_list_last[OF True]
      obtain q1 q2 where q: "post = q1 @ (47::int) # q2" and q2: "(47::int) \<notin> set q2"
        by blast
      have n: "name = (pre @ (46::int) # q1) @ (47::int) # q2" by (simp add: name q)
      have sep: "rfind name (47::int) = int (length (pre @ (46::int) # q1))"
        unfolding n using q2 by (rule rfind_last)
      have base: "basename name = q2"
        unfolding n using q2 by (rule basename_after_sep)
      have 1: "splitext name = (name, [])"
        by (simp add: splitext_def Let_def dot sep)
      have "(46::int) \<notin> set q2" using post q by simp
      then have "(46::int) \<notin> set (dropWhile (\<lambda>c. c = (46::int)) q2)"
        using set_dropWhile_subset[of "\<lambda>c. c = (46::int)" q2] by blast
      then have "without_extension name = name"
        by (simp add: without_extension_def base)
      with 1 show ?thesis by simp
    next
      case False
      have "\<exists>a b. pre = a @ b \<and> rfind name (47::int) + 1 = int (length a) \<and> basename name = b @ (46::int) # post"
      proof (cases "(47::int) \<in> set pre")
        case True
        from split_list_last[OF True]
        obtain p1 b where p: "pre = p1 @ (47::int) # b" and b: "(47::int) \<notin> set b"
          by blast
        have n: "name = p1 @ (47::int) # (b @ (46::int) # post)" by (simp add: name p)
        have nb: "(47::int) \<notin> set (b @ (46::int) # post)" using b False by simp
        have "rfind name (47::int) = int (length p1)"
          unfolding n using nb by (rule rfind_last)
        moreover have "basename name = b @ (46::int) # post"
          unfolding n using nb by (rule basename_after_sep)
        ultimately
        show ?thesis using p by (intro exI[of _ "p1 @ [(47::int)]"] exI[of _ b]) simp
      next
        case np: False
        then have "(47::int) \<notin> set name" using False by (simp add: name)
        then have "rfind name (47::int) = - 1" "basename name = name"
          by (simp_all add: rfind_absent basename_no_sep)
        then show ?thesis by (intro exI[of _ "[]"] exI[of _ pre]) (simp add: name)
      qed
      then obtain a b where pre: "pre = a @ b" and sep: "rfind name (47::int) + 1 = int (length a)"
        and base: "basename name = b @ (46::int) # post" by blast
      have n: "name = a @ b @ ((46::int) # post)" by (simp add: name pre)
      have "rfind name (47::int) < rfind name (46::int)" using sep dot pre by simp
      then have "splitext name = splitext_loop name (int (length a)) (int (length a + length b))"
        using sep dot pre by (simp add: splitext_def Let_def)
      also have "\<dots> = (if \<forall>x\<in>set b. x = (46::int) then (name, []) else (a @ b, (46::int) # post))"
        unfolding n by (rule splitext_loop_segment)
      finally have sp: "splitext name = (if \<forall>x\<in>set b. x = (46::int) then (name, []) else (pre, (46::int) # post))"
        by (simp add: pre)
      show ?thesis
      proof (cases "\<forall>x\<in>set b. x = (46::int)")
        case True
        then have "without_extension name = name"
          using dropWhile_dots_only[OF True post] by (simp add: without_extension_def base)
        with sp True show ?thesis by simp
      next
        case False
        have "without_extension name = rev (tl (dropWhile (\<lambda>c. c \<noteq> (46::int)) (rev name)))"
          using dropWhile_dots_some[OF False, of post] by (simp add: without_extension_def base)
        also have "\<dots> = pre"
          unfolding name using post by (rule stem_before_last_dot)
        finally have "without_extension name = pre" .
        with sp False show ?thesis by (simp add: name)
      qed
    qed
  qed
  then show "splitext name =
     (if without_extension name = name then (name, [])
      else (without_extension name, drop (length (without_extension name)) name))"
    and "take (length (without_extension name)) name = without_extension name" by blast+
qed

lemma fst_splitext: "fst (splitext name) = without_extension name"
  by (simp add: splitext_eq)

lemma without_extension_cases:
  "without_extension name = (if dot_file name then name else strip_extension name)"
proof -
  have "set (dropWhile (\<lambda>c. c = (46::int)) (basename name)) \<subseteq> set (basename name)"
    by (rule set_dropWhile_subset)
  then show ?thesis
    by (auto simp: without_extension_def dot_file_def strip_extension_def)
qed

subsection \<open>The decimal digits of the index\<close>

lemma decimal_nonempty: "decimal n \<noteq> []"
  by (subst decimal.simps) simp

lemma digits_value_snoc: "digits_value (ds @ [c]) = 10 * digits_value ds + nat (c - 48)"
  by (simp add: digits_value_def)

lemma decimal_digits: "list_all (\<lambda>c. 48 \<le> c \<and> c \<le> 57) (decimal n)"
proof (induction n rule: decimal.induct)
  case (1 n)
  show ?case
  proof (cases "n < 10")
    case True
    then show ?thesis by (subst decimal.simps) (simp add: digit_char_def)
  next
    case False
    have "n mod 10 < 10" by simp
    then have "48 + int (n mod 10) \<le> 57" by linarith
    with False "1.IH" show ?thesis by (subst decimal.simps) (simp add: digit_char_def)
  qed
qed

lemma decimal_value: "digits_value (decimal n) = n"
proof (induction n rule: decimal.induct)
  case (1 n)
  show ?case
  proof (cases "n < 10")
    case True
    then show ?thesis by (subst decimal.simps) (simp add: digit_char_def digits_value_def)
  next
    case False
    with "1.IH" show ?thesis
      by (subst decimal.simps) (simp add: digits_value_snoc digit_char_def)
  qed
qed

lemma decimal_hd: "0 < n \<Longrightarrow> hd (decimal n) \<noteq> 48"
proof (induction n rule: decimal.induct)
  case (1 n)
  show ?case
  proof (cases "n < 10")
    case True
    with "1.prems" show ?thesis by (subst decimal.simps) (simp add: digit_char_def)
  next
    case False
    then have "0 < n div 10" by simp
    with "1.IH"[OF False] have "hd (decimal (n div 10)) \<noteq> 48" by simp
    with False show ?thesis
      by (subst decimal.simps) (simp add: decimal_nonempty)
  qed
qed

lemma digits_value_zeros: "digits_value (replicate k 48 @ ds) = digits_value ds"
  by (induction k) (simp_all add: digits_value_def)

lemma format_03d_index: "zero_padded_index i (format_03d i)"
proof -
  define ds where "ds = decimal i"
  have digits: "list_all (\<lambda>c. 48 \<le> c \<and> c \<le> 57) (replicate (3 - length ds) 48 @ ds)"
    using decimal_digits[of i] by (auto simp: ds_def list_all_iff)
  have val: "digits_value (replicate (3 - length ds) 48 @ ds) = i"
    by (simp add: digits_value_zeros ds_def decimal_value)
  have width: "length (replicate (3 - length ds) 48 @ ds) = 3
      \<or> (3 < length (replicate (3 - length ds) 48 @ ds) \<and> hd (replicate (3 - length ds) 48 @ ds) \<noteq> 48)"
  proof (cases "length ds \<le> 3")
    case True
    then show ?thesis by simp
  next
    case False
    have "i \<noteq> 0"
    proof
      assume "i = 0"
      then have "ds = [48]" unfolding ds_def by (subst decimal.simps) (simp add: digit_char_def)
      with False show False by simp
    qed
    then have "hd ds \<noteq> 48" using decimal_hd[of i] by (simp add: ds_def)
    with False show ?thesis by simp
  qed
  show ?thesis
    unfolding zero_padded_index_def format_03d_def Let_def ds_def[symmetric]
    using digits val width by blast
qed

text \<open>The digits determine the index, so distinct indices give distinct identifiers.\<close>

lemma format_chunk_id_inj:
  assumes "format_chunk_id name i = format_chunk_id name j"
  shows "i = j"
proof -
  from assms have "format_03d i = format_03d j" by (simp add: format_chunk_id_def)
  then have "digits_value (format_03d i) = digits_value (format_03d j)" by simp
  then show ?thesis using format_03d_index[of i] format_03d_index[of j]
    by (simp add: zero_padded_index_def)
qed

lemma chunk_id_report_1: "format_chunk_id (ustr ''Report 1.pdf'') 2 = ustr ''Report_1_chunk_002''"
  by code_simp

text \<open>
  Claim C7, as amended.  For every document name and every chunk index, the chunk
  identifier is a stem with every space replaced by an underscore, followed by
  \<open>_chunk_\<close>, followed by the index zero-padded to three digits.  The stem is the
  document name without its extension, except for a dot file, whose whole name is kept,
  extension included.  The identifier is a function of the name and the index alone, so
  the same name and index give the same identifier in every run.
\<close>

theorem chunk_id_format:
  "\<exists>ds. format_chunk_id name i =
           spaces_to_underscores (if dot_file name then name else strip_extension name)
             @ ustr ''_chunk_'' @ ds
        \<and> zero_padded_index i ds"
proof -
  have "format_chunk_id name i =
          spaces_to_underscores (if dot_file name then name else strip_extension name)
            @ ustr ''_chunk_'' @ format_03d i"
    by (simp add: format_chunk_id_def fst_splitext str_replace_char spaces_to_underscores_def
          without_extension_cases)
  with format_03d_index[of i] show ?thesis by blast
qed

theorem chunk_id_format_witness:
  "\<not> dot_file (ustr ''Report 1.pdf'')
   \<and> (\<exists>ds. format_chunk_id (ustr ''Report 1.pdf'') 7 = ustr ''Report_1_chunk_'' @ ds
          \<and> zero_padded_index 7 ds)"
proof -
  have 1: "\<not> dot_file (ustr ''Report 1.pdf'')" by code_simp
  have 2: "spaces_to_underscores (strip_extension (ustr ''Report 1.pdf'')) @ ustr ''_chunk_''
             = ustr ''Report_1_chunk_''" by code_simp
  from chunk_id_format[of "ustr ''Report 1.pdf''" 7] 1
  obtain ds where ds: "format_chunk_id (ustr ''Report 1.pdf'') 7 =
      (spaces_to_underscores (strip_extension (ustr ''Report 1.pdf'')) @ ustr ''_chunk_'') @ ds"
    and idx: "zero_padded_index 7 ds" by auto
  from ds have "format_chunk_id (ustr ''Report 1.pdf'') 7 = ustr ''Report_1_chunk_'' @ ds"
    by (simp only: 2)
  with 1 idx show ?thesis by blast
qed

text \<open>
  The claim as it was stated fails for a dot file: the blob \<^verbatim>\<open>.pdf\<close> passes the PDF filter,
  its name without extension is empty, and its identifiers keep the extension.
\<close>

theorem chunk_id_dot_file_counterexample:
  "endswith (ustr ''.pdf'') (ustr ''.pdf'')
   \<and> strip_extension (ustr ''.pdf'') = []
   \<and> format_chunk_id (ustr ''.pdf'') 0 = ustr ''.pdf_chunk_000''
   \<and> format_chunk_id (ustr ''.pdf'') 0
       \<noteq> spaces_to_underscores (strip_extension (ustr ''.pdf'')) @ ustr ''_chunk_'' @ ustr ''000''"
  by code_simp

section \<open>Regular expressions (Python's re module)\<close>

text \<open>
  The redactor calls \<^verbatim>\<open>re.sub(pattern, repl, text)\<close> five times.  The patterns use literals,
  character classes, concatenation, alternation, the greedy optional \<^verbatim>\<open>?\<close>, greedy counted
  repetition of a character class and the word boundary \<^verbatim>\<open>\b\<close>.  The classes \<^verbatim>\<open>\d\<close> and
  \<^verbatim>\<open>\s\<close> and the word boundary denote predicates on code points, which a pattern carries
  as \<open>Category\<close> items and in \<open>WordB\<close>.  The matcher below is
  the backtracking search of \<^verbatim>\<open>re\<close> written as a list of successes: the cursors at which a
  match of the pattern can end, in the order in which backtracking tries them, so that the
  head of the list is the match Python reports.  A cursor is the character before the
  current position (none at the start of the text) and the text from the position on.
\<close>

datatype class_item = Chr int | Range int int | Category "int \<Rightarrow> bool"

fun in_item :: "class_item \<Rightarrow> int \<Rightarrow> bool" where
  "in_item (Chr a) c = (c = a)"
| "in_item (Range a b) c = (a \<le> c \<and> c \<le> b)"
| "in_item (Category P) c = P c"

definition in_class :: "class_item list \<Rightarrow> int \<Rightarrow> bool" where
  "in_class items c = list_ex (\<lambda>i. in_item i c) items"

datatype regex =
    Lit str
  | Cls "class_item list"
  | Seq regex regex
  | Alt regex regex
  | Opt regex
  | Rep "class_item list" nat "nat option"
  | WordB "int \<Rightarrow> bool"

type_synonym cursor = "int option \<times> str"

fun match_rep :: "class_item list \<Rightarrow> nat \<Rightarrow> nat option \<Rightarrow> cursor \<Rightarrow> cursor list" where
  "match_rep cls lo hi (p, []) = (if lo = 0 then [(p, [])] else [])"
| "match_rep cls lo hi (p, x # xs) =
     (if hi \<noteq> Some 0 \<and> in_class cls x
      then match_rep cls (lo - 1) (map_option (\<lambda>h. h - 1) hi) (Some x, xs) else [])
     @ (if lo = 0 then [(p, x # xs)] else [])"

definition word_boundary :: "(int \<Rightarrow> bool) \<Rightarrow> cursor \<Rightarrow> bool" where
  "word_boundary is_word cur =
     ((case fst cur of None \<Rightarrow> False | Some c \<Rightarrow> is_word c)
      \<noteq> (case snd cur of [] \<Rightarrow> False | c # _ \<Rightarrow> is_word c))"

fun rmatch :: "regex \<Rightarrow> cursor \<Rightarrow> cursor list" where
  "rmatch (Lit w) (p, s) =
     (if take (length w) s = w then [(if w = [] then p else Some (last w), drop (length w) s)] else [])"
| "rmatch (Cls cls) (p, s) =
     (case s of [] \<Rightarrow> [] | x # xs \<Rightarrow> if in_class cls x then [(Some x, xs)] else [])"
| "rmatch (Seq a b) cur = concat (map (rmatch b) (rmatch a cur))"
| "rmatch (Alt a b) cur = rmatch a cur @ rmatch b cur"
| "rmatch (Opt a) cur = rmatch a cur @ [cur]"
| "rmatch (Rep cls lo hi) cur = match_rep cls lo hi cur"
| "rmatch (WordB is_word) cur = (if word_boundary is_word cur then [cur] else [])"

text \<open>
  \<^verbatim>\<open>re.sub\<close> scans from left to right.  At each start position the first success is taken;
  after an empty match the next attempt at that same position must advance (an empty
  match there is refused and backtracking goes on), as CPython does since 3.7.  The text
  between two matches is copied, each match is replaced by \<open>repl\<close> (the replacements of
  the redactor hold no backslash and no group reference).
\<close>

definition first_match :: "regex \<Rightarrow> bool \<Rightarrow> cursor \<Rightarrow> cursor option" where
  "first_match r must_advance cur =
     (case filter (\<lambda>c. \<not> must_advance \<or> length (snd c) \<noteq> length (snd cur)) (rmatch r cur) of
        [] \<Rightarrow> None
      | c # _ \<Rightarrow> Some c)"

fun search :: "regex \<Rightarrow> bool \<Rightarrow> cursor \<Rightarrow> (str \<times> cursor) option" where
  "search r must_advance (p, s) =
     (case first_match r must_advance (p, s) of
        Some c \<Rightarrow> Some ([], c)
      | None \<Rightarrow>
          (case s of
             [] \<Rightarrow> None
           | x # xs \<Rightarrow> map_option (\<lambda>(gap, c). (x # gap, c)) (search r False (Some x, xs))))"


lemma match_rep_suffix:
  "c \<in> set (match_rep cls lo hi cur) \<Longrightarrow> \<exists>w. snd cur = w @ snd c"
proof (induction cls lo hi cur rule: match_rep.induct)
  case (1 cls lo hi p)
  then show ?case by (auto split: if_splits)
next
  case (2 cls lo hi p x xs)
  from "2.prems" consider
      (more) "hi \<noteq> Some 0" "in_class cls x"
        "c \<in> set (match_rep cls (lo - 1) (map_option (\<lambda>h. h - 1) hi) (Some x, xs))"
    | (stop) "c = (p, x # xs)"
    by (auto split: if_splits)
  then show ?case
  proof cases
    case more
    with "2.IH" obtain w where "xs = w @ snd c" by auto
    then have "x # xs = (x # w) @ snd c" by simp
    then show ?thesis by (metis snd_conv)
  next
    case stop
    then show ?thesis by simp
  qed
qed

lemma rmatch_suffix:
  "c \<in> set (rmatch r cur) \<Longrightarrow> \<exists>w. snd cur = w @ snd c"
proof (induction r arbitrary: cur c)
  case (Lit w)
  obtain p s where cur: "cur = (p, s)" by (cases cur)
  from Lit have "take (length w) s = w" "snd c = drop (length w) s"
    by (auto simp: cur split: if_splits)
  then have "s = w @ snd c" by (metis append_take_drop_id)
  then show ?case by (auto simp: cur)
next
  case (Cls cls)
  obtain p s where cur: "cur = (p, s)" by (cases cur)
  from Cls show ?case by (auto simp: cur split: list.splits if_splits)
next
  case (Seq a b)
  from Seq.prems obtain m where m: "m \<in> set (rmatch a cur)" and c: "c \<in> set (rmatch b m)"
    by auto
  from Seq.IH(1)[OF m] obtain w1 where "snd cur = w1 @ snd m" by blast
  moreover from Seq.IH(2)[OF c] obtain w2 where "snd m = w2 @ snd c" by blast
  ultimately have "snd cur = (w1 @ w2) @ snd c" by simp
  then show ?case by blast
next
  case (Alt a b)
  from Alt.prems have "c \<in> set (rmatch a cur) \<or> c \<in> set (rmatch b cur)" by simp
  then show ?case using Alt.IH by blast
next
  case (Opt a)
  from Opt.prems have "c = cur \<or> c \<in> set (rmatch a cur)" by simp
  then show ?case using Opt.IH by (elim disjE) (simp, blast)
next
  case (Rep cls lo hi)
  then show ?case by (simp add: match_rep_suffix)
next
  case (WordB is_word)
  then show ?case by (auto split: if_splits)
qed

lemma first_match_Some:
  assumes "first_match r adv cur = Some c"
  shows "c \<in> set (rmatch r cur)" and "adv \<Longrightarrow> length (snd c) \<noteq> length (snd cur)"
proof -
  let ?xs = "filter (\<lambda>c. \<not> adv \<or> length (snd c) \<noteq> length (snd cur)) (rmatch r cur)"
  from assms obtain rest where "?xs = c # rest"
    by (auto simp: first_match_def split: list.splits)
  then have "c \<in> set ?xs" by simp
  then show "c \<in> set (rmatch r cur)" and "adv \<Longrightarrow> length (snd c) \<noteq> length (snd cur)"
    by auto
qed

declare search.simps [simp del]

lemma search_shape:
  "search r adv cur = Some (gap, c) \<Longrightarrow>
     (\<exists>w. snd cur = gap @ w @ snd c) \<and> (adv \<longrightarrow> length (snd c) < length (snd cur))"
proof (induction r adv cur arbitrary: gap c rule: search.induct)
  case (1 r adv p s)
  note unf = search.simps[of r adv p s]
  show ?case
  proof (cases "first_match r adv (p, s)")
    case (Some c')
    with "1.prems" unf have gc: "gap = []" "c' = c" by simp_all
    from first_match_Some[OF Some] have in_set: "c' \<in> set (rmatch r (p, s))"
      and adv: "adv \<Longrightarrow> length (snd c') \<noteq> length s" by simp_all
    from rmatch_suffix[OF in_set] obtain w where w: "s = w @ snd c'" by auto
    have "length s = length w + length (snd c')" by (subst w) simp
    with adv have "adv \<longrightarrow> length (snd c') < length s" by auto
    moreover have "s = [] @ w @ snd c'" using w by simp
    ultimately show ?thesis unfolding gc(1) gc(2)[symmetric] snd_conv by blast
  next
    case None
    show ?thesis
    proof (cases s)
      case Nil
      with "1.prems" unf None show ?thesis by simp
    next
      case (Cons x xs)
      with "1.prems" unf None
      have "map_option (\<lambda>(gap, y). (x # gap, y)) (search r False (Some x, xs)) = Some (gap, c)"
        by simp
      then obtain gap' where gap: "gap = x # gap'"
        and rec: "search r False (Some x, xs) = Some (gap', c)"
        by (cases "search r False (Some x, xs)") auto
      from "1.IH"[OF None Cons rec] obtain w where "xs = gap' @ w @ snd c" by auto
      then have "s = gap @ w @ snd c" by (simp add: Cons gap)
      moreover have "length (snd c) < length s" by (subst calculation) (simp add: gap)
      ultimately show ?thesis by auto
    qed
  qed
qed

function re_sub_from :: "regex \<Rightarrow> str \<Rightarrow> bool \<Rightarrow> cursor \<Rightarrow> str" where
  "re_sub_from r repl must_advance (p, s) =
     (case search r must_advance (p, s) of
        None \<Rightarrow> s
      | Some (gap, c) \<Rightarrow>
          gap @ repl @ re_sub_from r repl (length gap + length (snd c) = length s) c)"
  by pat_completeness auto
termination
proof (relation "measure (\<lambda>(r, repl, adv, cur). 2 * length (snd cur) + (if adv then 0 else 1))", goal_cases)
  case 1
  show ?case by simp
next
  case (2 r repl adv p s x gap c)
  then have "search r adv (p, s) = Some (gap, c)" by simp
  from search_shape[OF this] obtain w where w: "s = gap @ w @ snd c"
    and adv: "adv \<longrightarrow> length (snd c) < length s" by auto
  define n a k m where "n = length s" and "a = length gap" and "k = length w" and "m = length (snd c)"
  have n: "n = a + k + m" unfolding n_def a_def k_def m_def by (subst w) simp
  have adv': "adv \<longrightarrow> m < n" using adv by (simp add: n_def m_def)
  have "2 * m + (if a + m = n then 0 else 1) < 2 * n + (if adv then 0 else (1::nat))"
    using n adv' by (cases adv; cases "k = 0") simp_all
  then show ?case by (simp add: n_def a_def m_def)
qed

definition re_sub :: "regex \<Rightarrow> str \<Rightarrow> str \<Rightarrow> str" where
  "re_sub r repl s = re_sub_from r repl False (None, s)"

section \<open>The redactor (local\_processor.py, redact\_phi)\<close>

text \<open>The five patterns of \<^verbatim>\<open>redact_phi\<close>, in the order of the source.\<close>

fun seq :: "regex list \<Rightarrow> regex" where
  "seq [] = Lit []"
| "seq [r] = r"
| "seq (r # rs) = Seq r (seq rs)"

fun alt :: "regex list \<Rightarrow> regex" where
  "alt [] = Lit []"
| "alt [r] = r"
| "alt (r # rs) = Alt r (alt rs)"

definition name_re :: "unicode_db \<Rightarrow> regex" where
  "name_re db = seq [WordB (py_isword db), Opt (alt [Lit (ustr ''Mr.''), Lit (ustr ''Mrs.''), Lit (ustr ''Ms.''), Lit (ustr ''Dr.'')]),
     Opt (Cls [Category py_isspace]),
     Cls [Range 65 90], Rep [Range 97 122] 1 None, Cls [Category py_isspace],
     Cls [Range 65 90], Rep [Range 97 122] 1 None, WordB (py_isword db)]"

definition date_re :: "unicode_db \<Rightarrow> regex" where
  "date_re db = alt [
     seq [WordB (py_isword db), Rep [Category (py_isdecimal db)] 1 (Some 2), Lit (ustr ''/''), Rep [Category (py_isdecimal db)] 1 (Some 2), Lit (ustr ''/''),
          Rep [Category (py_isdecimal db)] 2 (Some 4), WordB (py_isword db)],
     seq [WordB (py_isword db), alt [Lit (ustr ''Jan''), Lit (ustr ''Feb''), Lit (ustr ''Mar''), Lit (ustr ''Apr''), Lit (ustr ''May''), Lit (ustr ''Jun''),
                      Lit (ustr ''Jul''), Lit (ustr ''Aug''), Lit (ustr ''Sep''), Lit (ustr ''Oct''), Lit (ustr ''Nov''), Lit (ustr ''Dec'')],
          Cls [Category py_isspace], Rep [Category (py_isdecimal db)] 1 (Some 2), Lit (ustr '',''), Cls [Category py_isspace],
          Rep [Category (py_isdecimal db)] 4 (Some 4), WordB (py_isword db)],
     seq [WordB (py_isword db), Rep [Category (py_isdecimal db)] 4 (Some 4), Lit (ustr ''-''), Rep [Category (py_isdecimal db)] 2 (Some 2), Lit (ustr ''-''),
          Rep [Category (py_isdecimal db)] 2 (Some 2), WordB (py_isword db)]]"

definition phone_re :: "unicode_db \<Rightarrow> regex" where
  "phone_re db = seq [Opt (Lit (ustr ''('')), Rep [Category (py_isdecimal db)] 3 (Some 3), Opt (Lit (ustr '')'')),
     Opt (Cls [Chr 45, Chr 46, Category py_isspace]), Rep [Category (py_isdecimal db)] 3 (Some 3),
     Opt (Cls [Chr 45, Chr 46, Category py_isspace]), Rep [Category (py_isdecimal db)] 4 (Some 4)]"

definition ssn_re :: "unicode_db \<Rightarrow> regex" where
  "ssn_re db = seq [Rep [Category (py_isdecimal db)] 3 (Some 3), Lit (ustr ''-''), Rep [Category (py_isdecimal db)] 2 (Some 2), Lit (ustr ''-''),
     Rep [Category (py_isdecimal db)] 4 (Some 4)]"

definition address_re :: "unicode_db \<Rightarrow> regex" where
  "address_re db = seq [WordB (py_isword db), Rep [Category (py_isdecimal db)] 1 None, Cls [Category py_isspace],
     Rep [Range 65 90, Range 97 122] 1 None, Cls [Category py_isspace],
     alt [Lit (ustr ''Street''), Lit (ustr ''St''), Lit (ustr ''Road''), Lit (ustr ''Rd''), Lit (ustr ''Avenue''), Lit (ustr ''Ave''),
          Lit (ustr ''Boulevard''), Lit (ustr ''Blvd''), Lit (ustr ''Lane''), Lit (ustr ''Ln''), Lit (ustr ''Drive''), Lit (ustr ''Dr'')],
     WordB (py_isword db)]"

definition redact_phi :: "unicode_db \<Rightarrow> str \<Rightarrow> str" where
  "redact_phi db s =
     (let redacted_text = s;
          redacted_text = re_sub (name_re db) (ustr ''[PATIENT_NAME]'') redacted_text;
          redacted_text = re_sub (date_re db) (ustr ''[DATE]'') redacted_text;
          redacted_text = re_sub (phone_re db) (ustr ''[PHONE_NUMBER]'') redacted_text;
          redacted_text = re_sub (ssn_re db) (ustr ''[SSN]'') redacted_text;
          redacted_text = re_sub (address_re db) (ustr ''[ADDRESS]'') redacted_text
      in redacted_text)"


text \<open>
  Claim C4.  Redacting the text
  \<^verbatim>\<open>John Smith, SSN 123-45-6789, called 555-123-4567 on 03/14/2024\<close> replaces the name, the
  social security number, the phone number and the date each by its placeholder and keeps
  the text between them: the result is
  \<^verbatim>\<open>[PATIENT_NAME], SSN [SSN], called [PHONE_NUMBER] on [DATE]\<close>.
\<close>

theorem redact_phi_scenario:
  "redact_phi db (ustr ''John Smith, SSN 123-45-6789, called 555-123-4567 on 03/14/2024'') =
     ustr ''[PATIENT_NAME]'' @ ustr '', SSN '' @ ustr ''[SSN]'' @ ustr '', called ''
       @ ustr ''[PHONE_NUMBER]'' @ ustr '' on '' @ ustr ''[DATE]''"
  by code_simp

section \<open>What the redactor leaves behind\<close>

text \<open>
  The phone and the social security patterns have no word boundary, so whether they match
  at a position depends on the matched characters alone.  \<open>lang r w\<close> says that the
  pattern \<open>r\<close> matches exactly the word \<open>w\<close> (a word boundary counts as the empty word);
  \<open>has_match r s\<close> says that some part of \<open>s\<close> is such a word.
\<close>

fun lang :: "regex \<Rightarrow> str \<Rightarrow> bool" where
  "lang (Lit v) w = (w = v)"
| "lang (Cls cls) w = (\<exists>x. w = [x] \<and> in_class cls x)"
| "lang (Seq a b) w = (\<exists>u v. w = u @ v \<and> lang a u \<and> lang b v)"
| "lang (Alt a b) w = (lang a w \<or> lang b w)"
| "lang (Opt a) w = (w = [] \<or> lang a w)"
| "lang (Rep cls lo hi) w =
     (list_all (in_class cls) w \<and> lo \<le> length w \<and> (case hi of None \<Rightarrow> True | Some h \<Rightarrow> length w \<le> h))"
| "lang (WordB is_word) w = (w = [])"

fun wordb_free :: "regex \<Rightarrow> bool" where
  "wordb_free (Seq a b) = (wordb_free a \<and> wordb_free b)"
| "wordb_free (Alt a b) = (wordb_free a \<and> wordb_free b)"
| "wordb_free (Opt a) = wordb_free a"
| "wordb_free (WordB is_word) = False"
| "wordb_free r = True"

fun nullable :: "regex \<Rightarrow> bool" where
  "nullable (Lit v) = (v = [])"
| "nullable (Cls cls) = False"
| "nullable (Seq a b) = (nullable a \<and> nullable b)"
| "nullable (Alt a b) = (nullable a \<or> nullable b)"
| "nullable (Opt a) = True"
| "nullable (Rep cls lo hi) = (lo = 0)"
| "nullable (WordB is_word) = True"

fun alpha :: "regex \<Rightarrow> int \<Rightarrow> bool" where
  "alpha (Lit v) x = (x \<in> set v)"
| "alpha (Cls cls) x = in_class cls x"
| "alpha (Seq a b) x = (alpha a x \<or> alpha b x)"
| "alpha (Alt a b) x = (alpha a x \<or> alpha b x)"
| "alpha (Opt a) x = alpha a x"
| "alpha (Rep cls lo hi) x = in_class cls x"
| "alpha (WordB is_word) x = False"

definition has_match :: "regex \<Rightarrow> str \<Rightarrow> bool" where
  "has_match r s = (\<exists>u w v. s = u @ w @ v \<and> lang r w)"

lemma lang_alpha: "lang r w \<Longrightarrow> x \<in> set w \<Longrightarrow> alpha r x"
  by (induction r arbitrary: w) (fastforce simp: list_all_iff)+

lemma lang_nonempty: "lang r w \<Longrightarrow> \<not> nullable r \<Longrightarrow> w \<noteq> []"
  by (induction r arbitrary: w) auto

lemma match_rep_sound:
  "c \<in> set (match_rep cls lo hi cur) \<Longrightarrow>
     \<exists>w. snd cur = w @ snd c \<and> list_all (in_class cls) w \<and> lo \<le> length w
        \<and> (case hi of None \<Rightarrow> True | Some h \<Rightarrow> length w \<le> h)"
proof (induction cls lo hi cur rule: match_rep.induct)
  case (1 cls lo hi p)
  then show ?case by (auto split: if_splits option.splits)
next
  case (2 cls lo hi p x xs)
  from "2.prems" consider
      (more) "hi \<noteq> Some 0" "in_class cls x"
        "c \<in> set (match_rep cls (lo - 1) (map_option (\<lambda>h. h - 1) hi) (Some x, xs))"
    | (stop) "lo = 0" "c = (p, x # xs)"
    by (auto split: if_splits)
  then show ?case
  proof cases
    case more
    with "2.IH" obtain w where w: "xs = w @ snd c" "list_all (in_class cls) w" "lo - 1 \<le> length w"
      "(case map_option (\<lambda>h. h - 1) hi of None \<Rightarrow> True | Some h \<Rightarrow> length w \<le> h)"
      by auto
    have "x # xs = (x # w) @ snd c" using w(1) by simp
    moreover have "list_all (in_class cls) (x # w)" using w(2) more(2) by simp
    moreover have "lo \<le> length (x # w)" using w(3) by simp
    moreover have "(case hi of None \<Rightarrow> True | Some h \<Rightarrow> length (x # w) \<le> h)"
      using w(4) more(1) by (cases hi) auto
    ultimately show ?thesis unfolding snd_conv by blast
  next
    case stop
    then show ?thesis by (auto split: option.splits)
  qed
qed

lemma match_rep_complete:
  "list_all (in_class cls) w \<Longrightarrow> lo \<le> length w \<Longrightarrow>
   (case hi of None \<Rightarrow> True | Some h \<Rightarrow> length w \<le> h) \<Longrightarrow>
   \<exists>q. (q, t) \<in> set (match_rep cls lo hi (p, w @ t))"
proof (induction w arbitrary: lo hi p)
  case Nil
  then show ?case by (cases t) auto
next
  case (Cons x w)
  have "list_all (in_class cls) w" "lo - 1 \<le> length w"
    "(case map_option (\<lambda>h. h - 1) hi of None \<Rightarrow> True | Some h \<Rightarrow> length w \<le> h)"
    using Cons.prems by (auto split: option.splits)
  from Cons.IH[OF this, of "Some x"]
  obtain q where "(q, t) \<in> set (match_rep cls (lo - 1) (map_option (\<lambda>h. h - 1) hi) (Some x, w @ t))"
    by blast
  moreover have "hi \<noteq> Some 0" "in_class cls x" using Cons.prems by (auto split: option.splits)
  ultimately show ?case by auto
qed


lemma rmatch_sound:
  "c \<in> set (rmatch r cur) \<Longrightarrow> \<exists>w. snd cur = w @ snd c \<and> lang r w"
proof (induction r arbitrary: cur c)
  case (Lit v)
  obtain p s where cur: "cur = (p, s)" by (cases cur)
  from Lit have "take (length v) s = v" "snd c = drop (length v) s"
    by (auto simp: cur split: if_splits)
  then have "s = v @ snd c" by (metis append_take_drop_id)
  then show ?case by (auto simp: cur)
next
  case (Cls cls)
  obtain p s where cur: "cur = (p, s)" by (cases cur)
  from Cls show ?case by (auto simp: cur split: list.splits if_splits)
next
  case (Seq a b)
  from Seq.prems obtain m where m: "m \<in> set (rmatch a cur)" and c: "c \<in> set (rmatch b m)"
    by auto
  from Seq.IH(1)[OF m] obtain w1 where w1: "snd cur = w1 @ snd m" "lang a w1" by blast
  from Seq.IH(2)[OF c] obtain w2 where w2: "snd m = w2 @ snd c" "lang b w2" by blast
  have "snd cur = (w1 @ w2) @ snd c" using w1(1) w2(1) by simp
  moreover have "lang (Seq a b) (w1 @ w2)" using w1(2) w2(2) by auto
  ultimately show ?case by blast
next
  case (Alt a b)
  from Alt.prems have "c \<in> set (rmatch a cur) \<or> c \<in> set (rmatch b cur)" by simp
  then show ?case using Alt.IH by (elim disjE) fastforce+
next
  case (Opt a)
  from Opt.prems have "c = cur \<or> c \<in> set (rmatch a cur)" by simp
  then show ?case using Opt.IH by (elim disjE) fastforce+
next
  case (Rep cls lo hi)
  then show ?case using match_rep_sound[of c cls lo hi cur] by simp
next
  case (WordB is_word)
  then show ?case by (auto split: if_splits)
qed

lemma rmatch_complete:
  "wordb_free r \<Longrightarrow> lang r w \<Longrightarrow> \<exists>q. (q, t) \<in> set (rmatch r (p, w @ t))"
proof (induction r arbitrary: w t p)
  case (Lit v)
  then show ?case by simp
next
  case (Cls cls)
  then show ?case by auto
next
  case (Seq a b)
  from Seq.prems obtain u v where w: "w = u @ v" and u: "lang a u" and v: "lang b v" by auto
  from Seq.prems have fa: "wordb_free a" and fb: "wordb_free b" by simp_all
  from Seq.IH(1)[OF fa u, of "v @ t" p] obtain q1 where q1: "(q1, v @ t) \<in> set (rmatch a (p, u @ v @ t))"
    by blast
  from Seq.IH(2)[OF fb v, of t q1] obtain q where q: "(q, t) \<in> set (rmatch b (q1, v @ t))"
    by blast
  from q1 q have "(q, t) \<in> set (rmatch (Seq a b) (p, w @ t))"
    by (auto simp: w intro!: bexI[of _ "(q1, v @ t)"])
  then show ?case by blast
next
  case (Alt a b)
  from Alt.prems have "lang a w \<or> lang b w" "wordb_free a" "wordb_free b" by simp_all
  then show ?case using Alt.IH[of w t p] by auto
next
  case (Opt a)
  from Opt.prems have "w = [] \<or> lang a w" "wordb_free a" by simp_all
  then show ?case using Opt.IH[of w t p] by auto
next
  case (Rep cls lo hi)
  then show ?case using match_rep_complete[of cls w lo hi t p] by simp
next
  case (WordB is_word)
  then show ?case by simp
qed

lemma rmatch_shorter:
  assumes "c \<in> set (rmatch r cur)" and "\<not> nullable r"
  shows "length (snd c) < length (snd cur)"
proof -
  from rmatch_sound[OF assms(1)] obtain w where w: "snd cur = w @ snd c" "lang r w" by blast
  from lang_nonempty[OF w(2) assms(2)] have "w \<noteq> []" .
  then show ?thesis by (subst w(1)) simp
qed

lemma first_match_None:
  assumes "first_match r adv cur = None" and "\<not> nullable r"
  shows "rmatch r cur = []"
proof -
  have "filter (\<lambda>c. \<not> adv \<or> length (snd c) \<noteq> length (snd cur)) (rmatch r cur) = rmatch r cur"
    using rmatch_shorter[OF _ assms(2), of _ cur] by (intro filter_True) fastforce
  with assms(1) show ?thesis by (simp add: first_match_def split: list.splits)
qed

lemma has_match_Cons:
  "has_match r (x # xs) \<longleftrightarrow> (\<exists>w v. x # xs = w @ v \<and> lang r w) \<or> has_match r xs"
proof
  assume "has_match r (x # xs)"
  then obtain u w v where s: "x # xs = u @ w @ v" and l: "lang r w" by (auto simp: has_match_def)
  show "(\<exists>w v. x # xs = w @ v \<and> lang r w) \<or> has_match r xs"
  proof (cases u)
    case Nil
    with s l show ?thesis by auto
  next
    case (Cons y u')
    with s have "xs = u' @ w @ v" by simp
    with l show ?thesis by (auto simp: has_match_def)
  qed
next
  assume "(\<exists>w v. x # xs = w @ v \<and> lang r w) \<or> has_match r xs"
  then show "has_match r (x # xs)"
  proof
    assume "\<exists>w v. x # xs = w @ v \<and> lang r w"
    then obtain w v where "x # xs = [] @ w @ v" "lang r w" by auto
    then show ?thesis unfolding has_match_def by blast
  next
    assume "has_match r xs"
    then obtain u w v where "xs = u @ w @ v" "lang r w" by (auto simp: has_match_def)
    then have "x # xs = (x # u) @ w @ v" "lang r w" by simp_all
    then show ?thesis unfolding has_match_def by blast
  qed
qed

lemma has_match_Nil: "has_match r [] \<longleftrightarrow> lang r []"
  by (auto simp: has_match_def)

text \<open>A text without a match is searched in vain.\<close>

lemma search_no_match:
  "\<not> has_match r (snd cur) \<Longrightarrow> search r adv cur = None"
proof (induction r adv cur rule: search.induct)
  case (1 r adv p s)
  have fm: "first_match r adv (p, s) = None"
  proof (cases "first_match r adv (p, s)")
    case (Some c)
    from first_match_Some(1)[OF Some] rmatch_sound[of c r "(p, s)"]
    obtain w where "s = [] @ w @ snd c" "lang r w" by auto
    then have "has_match r s" unfolding has_match_def by blast
    with "1.prems" show ?thesis by simp
  qed simp
  show ?case
  proof (cases s)
    case Nil
    with fm show ?thesis by (simp add: search.simps)
  next
    case (Cons x xs)
    with "1.prems" have "\<not> has_match r xs" by (simp add: has_match_Cons)
    with "1.IH"[OF fm Cons] have "search r False (Some x, xs) = None" by simp
    with fm Cons show ?thesis by (simp add: search.simps)
  qed
qed

text \<open>A failed search of a pattern free of word boundaries shows there is no match.\<close>

lemma search_None_no_match:
  "search r adv cur = None \<Longrightarrow> wordb_free r \<Longrightarrow> \<not> nullable r \<Longrightarrow> \<not> has_match r (snd cur)"
proof (induction r adv cur rule: search.induct)
  case (1 r adv p s)
  note unf = search.simps[of r adv p s]
  from "1.prems"(1) unf have fm: "first_match r adv (p, s) = None"
    by (cases "first_match r adv (p, s)") auto
  from first_match_None[OF fm "1.prems"(3)] have empty: "rmatch r (p, s) = []" .
  have no_prefix: "\<not> (\<exists>w v. s = w @ v \<and> lang r w)"
  proof
    assume "\<exists>w v. s = w @ v \<and> lang r w"
    then obtain w v where "s = w @ v" "lang r w" by blast
    with rmatch_complete[OF "1.prems"(2), of w v p] empty show False by auto
  qed
  show ?case
  proof (cases s)
    case Nil
    with no_prefix show ?thesis by (auto simp: has_match_Nil)
  next
    case (Cons x xs)
    with "1.prems"(1) unf fm have "search r False (Some x, xs) = None" by auto
    from "1.IH"[OF fm Cons this "1.prems"(2,3)] have "\<not> has_match r xs" by simp
    with no_prefix Cons show ?thesis by (simp add: has_match_Cons)
  qed
qed

text \<open>The text copied before the first match holds no match.\<close>

lemma search_Some_gap:
  "search r adv cur = Some (gap, c) \<Longrightarrow> wordb_free r \<Longrightarrow> \<not> nullable r \<Longrightarrow> \<not> has_match r gap"
proof (induction r adv cur arbitrary: gap rule: search.induct)
  case (1 r adv p s)
  note unf = search.simps[of r adv p s]
  show ?case
  proof (cases "first_match r adv (p, s)")
    case (Some c')
    with "1.prems"(1) unf have "gap = []" by simp
    moreover have "\<not> lang r []" using lang_nonempty[OF _ "1.prems"(3)] by blast
    ultimately show ?thesis by (simp add: has_match_Nil)
  next
    case None
    from first_match_None[OF None "1.prems"(3)] have empty: "rmatch r (p, s) = []" .
    show ?thesis
    proof (cases s)
      case Nil
      with "1.prems"(1) unf None show ?thesis by simp
    next
      case (Cons x xs)
      with "1.prems"(1) unf None
      have "map_option (\<lambda>(gap, y). (x # gap, y)) (search r False (Some x, xs)) = Some (gap, c)"
        by simp
      then obtain gap' where gap: "gap = x # gap'"
        and rec: "search r False (Some x, xs) = Some (gap', c)"
        by (cases "search r False (Some x, xs)") auto
      from "1.IH"[OF None Cons rec "1.prems"(2,3)] have IH: "\<not> has_match r gap'" .
      from search_shape[OF rec] obtain w0 where xs: "xs = gap' @ w0 @ snd c" by auto
      have "\<not> (\<exists>w v. x # gap' = w @ v \<and> lang r w)"
      proof
        assume "\<exists>w v. x # gap' = w @ v \<and> lang r w"
        then obtain w v where wv: "x # gap' = w @ v" "lang r w" by blast
        have "s = w @ (v @ w0 @ snd c)" using wv(1) xs Cons by (metis append_Cons append_assoc)
        with rmatch_complete[OF "1.prems"(2) wv(2), of "v @ w0 @ snd c" p] empty
        show False by auto
      qed
      with IH show ?thesis by (simp add: gap has_match_Cons)
    qed
  qed
qed


lemma has_match_append:
  "has_match r b \<Longrightarrow> has_match r (a @ b @ c)"
proof -
  assume "has_match r b"
  then obtain u w v where "b = u @ w @ v" "lang r w" by (auto simp: has_match_def)
  then have "a @ b @ c = (a @ u) @ w @ (v @ c)" "lang r w" by simp_all
  then show ?thesis unfolding has_match_def by blast
qed

lemma has_match_prefix: "has_match r a \<Longrightarrow> has_match r (a @ c)"
  using has_match_append[of r a "[]" c] by simp

lemma has_match_suffix: "has_match r b \<Longrightarrow> has_match r (a @ b)"
  using has_match_append[of r b a "[]"] by simp

text \<open>
  A match cannot reach into a replacement whose characters the pattern never matches: a
  match in \<open>a @ repl @ b\<close> lies in \<open>a\<close> or in \<open>b\<close>.
\<close>

lemma no_match_join:
  assumes a: "\<not> has_match r a" and b: "\<not> has_match r b"
    and repl: "repl \<noteq> []" "\<forall>x\<in>set repl. \<not> alpha r x" and nn: "\<not> nullable r"
  shows "\<not> has_match r (a @ repl @ b)"
proof
  assume "has_match r (a @ repl @ b)"
  then obtain u w v where s: "a @ repl @ b = u @ w @ v" and l: "lang r w"
    by (auto simp: has_match_def)
  from lang_nonempty[OF l nn] have w: "w \<noteq> []" .
  show False
  proof (cases "length u + length w \<le> length a")
    case True
    have "a = take (length a) (a @ repl @ b)" by simp
    also have "\<dots> = take (length a) (u @ w @ v)" by (simp only: s)
    also have "\<dots> = u @ w @ take (length a - length u - length w) v" using True by simp
    finally have "has_match r a" using l unfolding has_match_def by blast
    with a show False ..
  next
    case left: False
    show False
    proof (cases "length a + length repl \<le> length u")
      case True
      have "b = drop (length a + length repl) (a @ repl @ b)" by simp
      also have "\<dots> = drop (length a + length repl) (u @ w @ v)" by (simp only: s)
      also have "\<dots> = drop (length a + length repl) u @ w @ v" using True by simp
      finally have "has_match r b" using l unfolding has_match_def by blast
      with b show False ..
    next
      case right: False
      define i where "i = max (length u) (length a)"
      have i: "length u \<le> i" "i < length u + length w" "length a \<le> i" "i < length a + length repl"
        using left right w repl(1) by (auto simp: i_def)
      have ia: "\<not> i < length a" "i - length a < length repl"
        and iu: "\<not> i < length u" "i - length u < length w" using i by arith+
      have "(a @ repl @ b) ! i = repl ! (i - length a)" using ia by (simp add: nth_append)
      moreover have "(u @ w @ v) ! i = w ! (i - length u)" using iu by (simp add: nth_append)
      ultimately have eq: "repl ! (i - length a) = w ! (i - length u)" using s by simp
      have "repl ! (i - length a) \<in> set repl" using ia by (intro nth_mem)
      moreover have "w ! (i - length u) \<in> set w" using iu by (intro nth_mem)
      ultimately show False using repl(2) lang_alpha[OF l] eq by metis
    qed
  qed
qed

declare re_sub_from.simps [simp del]

lemma re_sub_from_no_match:
  "\<not> has_match r (snd cur) \<Longrightarrow> re_sub_from r repl adv cur = snd cur"
proof -
  assume "\<not> has_match r (snd cur)"
  then have "search r adv cur = None" by (rule search_no_match)
  then show ?thesis by (cases cur) (simp add: re_sub_from.simps)
qed

text \<open>Substituting one pattern creates no match of another whose alphabet misses the replacement.\<close>

lemma re_sub_from_preserves:
  "\<not> nullable r \<Longrightarrow> repl \<noteq> [] \<Longrightarrow> \<forall>x\<in>set repl. \<not> alpha r x \<Longrightarrow>
   \<not> has_match r (snd cur) \<Longrightarrow> \<not> has_match r (re_sub_from r' repl adv cur)"
proof (induction r' repl adv cur rule: re_sub_from.induct)
  case (1 r' repl adv p s)
  note unf = re_sub_from.simps[of r' repl adv p s]
  show ?case
  proof (cases "search r' adv (p, s)")
    case None
    with "1.prems"(4) unf show ?thesis by simp
  next
    case (Some gc)
    obtain gap c where gc: "gc = (gap, c)" by (cases gc)
    from search_shape[OF Some[unfolded gc]] obtain w where s: "s = gap @ w @ snd c" by auto
    from "1.prems"(4) have ns: "\<not> has_match r s" by simp
    have "\<not> has_match r gap" using ns has_match_prefix[of r gap "w @ snd c"] by (auto simp: s)
    moreover have "\<not> has_match r (snd c)"
      using ns has_match_suffix[of r "snd c" "gap @ w"] by (auto simp: s)
    then have "\<not> has_match r (re_sub_from r' repl (length gap + length (snd c) = length s) c)"
      using "1.IH"[OF Some gc[symmetric] "1.prems"(1,2,3)] by simp
    ultimately have "\<not> has_match r (gap @ repl @ re_sub_from r' repl (length gap + length (snd c) = length s) c)"
      using "1.prems"(1,2,3) by (intro no_match_join) auto
    then show ?thesis using unf Some gc by simp
  qed
qed

text \<open>After substituting a pattern free of word boundaries, no match of it is left.\<close>

lemma re_sub_from_clears:
  assumes nn: "\<not> nullable r" and wf: "wordb_free r"
  shows "repl \<noteq> [] \<Longrightarrow> \<forall>x\<in>set repl. \<not> alpha r x \<Longrightarrow> \<not> has_match r (re_sub_from r repl adv cur)"
  using assms
proof (induction r repl adv cur rule: re_sub_from.induct)
  case (1 r repl adv p s)
  note unf = re_sub_from.simps[of r repl adv p s]
  show ?case
  proof (cases "search r adv (p, s)")
    case None
    from search_None_no_match[OF None "1.prems"(4,3)] unf None show ?thesis by simp
  next
    case (Some gc)
    obtain gap c where gc: "gc = (gap, c)" by (cases gc)
    from search_Some_gap[OF Some[unfolded gc] "1.prems"(4,3)] have "\<not> has_match r gap" .
    moreover have "\<not> has_match r (re_sub_from r repl (length gap + length (snd c) = length s) c)"
      using "1.IH"[OF Some gc[symmetric] "1.prems"] .
    ultimately have "\<not> has_match r (gap @ repl @ re_sub_from r repl (length gap + length (snd c) = length s) c)"
      using "1.prems" by (intro no_match_join) auto
    then show ?thesis using unf Some gc by simp
  qed
qed

lemma re_sub_preserves:
  "\<not> nullable r \<Longrightarrow> repl \<noteq> [] \<Longrightarrow> list_all (\<lambda>x. \<not> alpha r x) repl \<Longrightarrow>
   \<not> has_match r s \<Longrightarrow> \<not> has_match r (re_sub r' repl s)"
  unfolding re_sub_def using re_sub_from_preserves[of r repl "(None, s)" r' False]
  by (simp add: list_all_iff)

lemma re_sub_clears:
  "\<not> nullable r \<Longrightarrow> wordb_free r \<Longrightarrow> repl \<noteq> [] \<Longrightarrow> list_all (\<lambda>x. \<not> alpha r x) repl \<Longrightarrow>
   \<not> has_match r (re_sub r repl s)"
  unfolding re_sub_def using re_sub_from_clears[of r repl False "(None, s)"]
  by (simp add: list_all_iff)

lemma re_sub_no_match:
  "\<not> has_match r s \<Longrightarrow> re_sub r repl s = s \<and> search r False (None, s) = None"
  unfolding re_sub_def using re_sub_from_no_match[of r "(None, s)" repl False] search_no_match[of r "(None, s)" False]
  by simp

lemma phone_re_facts: "\<not> nullable (phone_re db)" "wordb_free (phone_re db)"
  by (simp_all add: phone_re_def)

lemma ssn_re_facts: "\<not> nullable (ssn_re db)" "wordb_free (ssn_re db)"
  by (simp_all add: ssn_re_def)

lemma placeholders_outside_phone:
  "list_all (\<lambda>x. \<not> alpha (phone_re db) x) (ustr ''[PATIENT_NAME]'')"
  "list_all (\<lambda>x. \<not> alpha (phone_re db) x) (ustr ''[DATE]'')"
  "list_all (\<lambda>x. \<not> alpha (phone_re db) x) (ustr ''[PHONE_NUMBER]'')"
  "list_all (\<lambda>x. \<not> alpha (phone_re db) x) (ustr ''[SSN]'')"
  "list_all (\<lambda>x. \<not> alpha (phone_re db) x) (ustr ''[ADDRESS]'')"
  by code_simp+

lemma placeholders_outside_ssn:
  "list_all (\<lambda>x. \<not> alpha (ssn_re db) x) (ustr ''[PATIENT_NAME]'')"
  "list_all (\<lambda>x. \<not> alpha (ssn_re db) x) (ustr ''[DATE]'')"
  "list_all (\<lambda>x. \<not> alpha (ssn_re db) x) (ustr ''[PHONE_NUMBER]'')"
  "list_all (\<lambda>x. \<not> alpha (ssn_re db) x) (ustr ''[SSN]'')"
  "list_all (\<lambda>x. \<not> alpha (ssn_re db) x) (ustr ''[ADDRESS]'')"
  by code_simp+

lemma redact_phi_no_phone: "\<not> has_match (phone_re db) (redact_phi db s)"
  unfolding redact_phi_def Let_def
  by (intro re_sub_clears[OF phone_re_facts] re_sub_preserves[OF phone_re_facts(1)] placeholders_outside_phone)
     (simp_all add: ustr_def)

lemma redact_phi_no_ssn: "\<not> has_match (ssn_re db) (redact_phi db s)"
  unfolding redact_phi_def Let_def
  by (intro re_sub_clears[OF ssn_re_facts] re_sub_preserves[OF ssn_re_facts(1)] placeholders_outside_ssn)
     (simp_all add: ustr_def)

text \<open>
  Claim C8.  For every input text, the output of the redactor holds no match of the phone
  pattern and none of the social security pattern, and neither does it after the name and
  date passes of a second run.  So in a second run the phone pass and the social security
  pass find no match and return their input unchanged, and either pass applied directly to
  the redacted text returns it unchanged.
\<close>

theorem redact_phi_idempotent_phone_ssn:
  "(let out = redact_phi db s;
        t = re_sub (date_re db) (ustr ''[DATE]'') (re_sub (name_re db) (ustr ''[PATIENT_NAME]'') out)
    in search (phone_re db) False (None, t) = None \<and> re_sub (phone_re db) (ustr ''[PHONE_NUMBER]'') t = t
     \<and> search (ssn_re db) False (None, t) = None \<and> re_sub (ssn_re db) (ustr ''[SSN]'') t = t
     \<and> re_sub (phone_re db) (ustr ''[PHONE_NUMBER]'') out = out \<and> re_sub (ssn_re db) (ustr ''[SSN]'') out = out)"
proof -
  define out where "out = redact_phi db s"
  define t where "t = re_sub (date_re db) (ustr ''[DATE]'') (re_sub (name_re db) (ustr ''[PATIENT_NAME]'') out)"
  have op: "\<not> has_match (phone_re db) out" and os: "\<not> has_match (ssn_re db) out"
    unfolding out_def by (rule redact_phi_no_phone redact_phi_no_ssn)+
  have tp: "\<not> has_match (phone_re db) t" unfolding t_def
    by (intro re_sub_preserves[OF phone_re_facts(1)] placeholders_outside_phone op) (simp_all add: ustr_def)
  have ts: "\<not> has_match (ssn_re db) t" unfolding t_def
    by (intro re_sub_preserves[OF ssn_re_facts(1)] placeholders_outside_ssn os) (simp_all add: ustr_def)
  show ?thesis
    unfolding Let_def out_def[symmetric] t_def[symmetric]
    using re_sub_no_match[OF tp] re_sub_no_match[OF ts] re_sub_no_match[OF op] re_sub_no_match[OF os]
    by simp
qed


text \<open>A character database that adds no digit and no word character above U+00FF.\<close>

definition latin1_db :: unicode_db where
  "latin1_db = \<lparr>unicode_decimal = (\<lambda>c. False), unicode_word = (\<lambda>c. False)\<rparr>"

theorem redact_phi_idempotent_phone_ssn_witness:
  "re_sub (phone_re latin1_db) (ustr ''[PHONE_NUMBER]'')
       (redact_phi latin1_db (ustr ''SSN 123-45-6789, tel 555-123-4567'')) =
     redact_phi latin1_db (ustr ''SSN 123-45-6789, tel 555-123-4567'') \<and>
   re_sub (ssn_re latin1_db) (ustr ''[SSN]'')
       (redact_phi latin1_db (ustr ''SSN 123-45-6789, tel 555-123-4567'')) =
     redact_phi latin1_db (ustr ''SSN 123-45-6789, tel 555-123-4567'')"
  using redact_phi_idempotent_phone_ssn[of latin1_db "ustr ''SSN 123-45-6789, tel 555-123-4567''"]
  by (simp add: Let_def)

section \<open>The chunker (local\_processor.py, lines 157 to 169)\<close>

text \<open>
  The document processor chunks with \<^verbatim>\<open>RecursiveCharacterTextSplitter\<close> of the library
  \<^verbatim>\<open>langchain_text_splitters\<close>, constructed with \<^verbatim>\<open>chunk_size=490\<close>,
  \<^verbatim>\<open>chunk_overlap=88\<close>, \<^verbatim>\<open>length_function=len\<close> and five separators, and calls
  \<^verbatim>\<open>create_documents\<close> on the extracted text.  The library is not part of the repository;
  the functions below transcribe its routines \<^verbatim>\<open>_split_text_with_regex\<close>,
  \<^verbatim>\<open>_join_docs\<close>, \<^verbatim>\<open>_merge_splits\<close> and \<^verbatim>\<open>_split_text\<close> under the defaults the call
  leaves in place: separators are literal text (\<^verbatim>\<open>is_separator_regex=False\<close>), each
  separator stays at the start of the piece that follows it (\<^verbatim>\<open>keep_separator=True\<close>), and
  every merged document is stripped of surrounding whitespace
  (\<^verbatim>\<open>strip_whitespace=True\<close>).  \<open>None\<close> stands for an \<^verbatim>\<open>IndexError\<close> of the library.
\<close>

definition chunk_size :: int where
  "chunk_size = 490"

definition chunk_overlap :: int where
  "chunk_overlap = 88"

definition separators :: "str list" where
  "separators = [[10, 10, 10], [10, 10], [10], [32], []]"

text \<open>\<^verbatim>\<open>re.search(re.escape(sep), text)\<close>: does the literal occur in the text?\<close>

fun contains :: "str \<Rightarrow> str \<Rightarrow> bool" where
  "contains [] sub = (sub = [])"
| "contains (x # xs) sub = (take (length sub) (x # xs) = sub \<or> contains xs sub)"

text \<open>
  \<^verbatim>\<open>re.split\<close> on a literal separator in a capture group returns the pieces between the
  occurrences and the separators alternately; \<^verbatim>\<open>_split_text_with_regex\<close> joins each
  separator to the piece after it and drops empty strings.  With the empty separator the
  text is split into its characters.
\<close>

function pieces :: "str \<Rightarrow> str \<Rightarrow> str \<Rightarrow> str list" where
  "pieces sep acc s =
     (if s = [] then [acc]
      else if sep \<noteq> [] \<and> take (length sep) s = sep then acc # pieces sep [] (drop (length sep) s)
      else pieces sep (acc @ [hd s]) (tl s))"
  by pat_completeness auto
termination
  by (relation "measure (\<lambda>(sep, acc, s). length s)") auto

definition split_text_with_regex :: "str \<Rightarrow> str \<Rightarrow> str list" where
  "split_text_with_regex s separator =
     (let splits =
        (if separator \<noteq> [] then
           (case pieces separator [] s of
              [] \<Rightarrow> []
            | first # others \<Rightarrow> first # map (\<lambda>p. separator @ p) others)
         else map (\<lambda>c. [c]) s)
      in filter (\<lambda>x. x \<noteq> []) splits)"

fun str_join :: "str \<Rightarrow> str list \<Rightarrow> str" where
  "str_join sep [] = []"
| "str_join sep [x] = x"
| "str_join sep (x # y # ys) = x @ sep @ str_join sep (y # ys)"

definition join_docs :: "str list \<Rightarrow> str \<Rightarrow> str option" where
  "join_docs docs separator =
     (let joined = py_strip (str_join separator docs)
      in if joined = [] then None else Some joined)"

text \<open>
  \<^verbatim>\<open>_merge_splits\<close>.  The state of its loop is the list of documents, the pieces collected
  for the next document and their total length.  When the next piece does not fit, the
  collected pieces are joined into a document, and pieces are popped from the front while
  more than the overlap remains (or the next piece still does not fit).
\<close>

fun pop_while :: "int \<Rightarrow> int \<Rightarrow> str list \<Rightarrow> int \<Rightarrow> (str list \<times> int) option" where
  "pop_while len separator_len [] total_len =
     (if total_len > chunk_overlap \<or> (total_len + len > chunk_size \<and> total_len > 0)
      then None else Some ([], total_len))"
| "pop_while len separator_len (c # cs) total_len =
     (if total_len > chunk_overlap \<or> (total_len + len + separator_len > chunk_size \<and> total_len > 0)
      then pop_while len separator_len cs
             (total_len - (int (length c) + (if length (c # cs) > 1 then separator_len else 0)))
      else Some (c # cs, total_len))"

definition append_doc :: "str list \<Rightarrow> str option \<Rightarrow> str list" where
  "append_doc docs doc = (case doc of None \<Rightarrow> docs | Some d \<Rightarrow> docs @ [d])"

definition merge_step ::
  "str \<Rightarrow> str \<Rightarrow> str list \<times> str list \<times> int \<Rightarrow> (str list \<times> str list \<times> int) option" where
  "merge_step separator d st =
     (case st of (docs, current_doc, total_len) \<Rightarrow>
        let separator_len = int (length separator);
            len = int (length d);
            add = (\<lambda>docs current_doc total_len.
                     Some (docs, current_doc @ [d],
                           total_len + len + (if length (current_doc @ [d]) > 1 then separator_len else 0)))
        in if total_len + len + (if length current_doc > 0 then separator_len else 0) > chunk_size
           then (if length current_doc > 0
                 then (case pop_while len separator_len current_doc total_len of
                         None \<Rightarrow> None
                       | Some (current_doc', total_len') \<Rightarrow>
                           add (append_doc docs (join_docs current_doc separator)) current_doc' total_len')
                 else add docs current_doc total_len)
           else add docs current_doc total_len)"

fun merge_loop ::
  "str \<Rightarrow> str list \<Rightarrow> str list \<times> str list \<times> int \<Rightarrow> str list option" where
  "merge_loop separator [] st =
     (case st of (docs, current_doc, total_len) \<Rightarrow> Some (append_doc docs (join_docs current_doc separator)))"
| "merge_loop separator (d # ds) st =
     (case merge_step separator d st of
        None \<Rightarrow> None
      | Some st' \<Rightarrow> merge_loop separator ds st')"

definition merge_splits :: "str list \<Rightarrow> str \<Rightarrow> str list option" where
  "merge_splits splits separator = merge_loop separator splits ([], [], 0)"

text \<open>
  \<^verbatim>\<open>_split_text\<close>: the first separator that is empty or occurs in the text is used, and
  the separators after it serve for the pieces that are still too long.  Pieces shorter
  than the chunk size are collected and merged; a longer piece is split recursively, or
  kept as it is when no separator is left.
\<close>

fun scan_separators :: "str \<Rightarrow> str list \<Rightarrow> (str \<times> str list) option" where
  "scan_separators s [] = None"
| "scan_separators s (sep # rest) =
     (if sep = [] then Some (sep, [])
      else if contains s sep then Some (sep, rest)
      else scan_separators s rest)"

definition choose_separator :: "str \<Rightarrow> str list \<Rightarrow> str \<times> str list" where
  "choose_separator s seps =
     (case scan_separators s seps of None \<Rightarrow> (last seps, []) | Some found \<Rightarrow> found)"

definition flush_good :: "str list \<Rightarrow> str list \<Rightarrow> str list option" where
  "flush_good final_chunks good_splits =
     (if good_splits \<noteq> []
      then map_option (\<lambda>merged. final_chunks @ merged) (merge_splits good_splits [])
      else Some final_chunks)"

fun split_loop ::
  "(str \<Rightarrow> str list option) \<Rightarrow> bool \<Rightarrow> str list \<Rightarrow> str list \<Rightarrow> str list
     \<Rightarrow> str list option" where
  "split_loop recurse no_new [] final_chunks good_splits = flush_good final_chunks good_splits"
| "split_loop recurse no_new (s # ss) final_chunks good_splits =
     (if int (length s) < chunk_size
      then split_loop recurse no_new ss final_chunks (good_splits @ [s])
      else (case flush_good final_chunks good_splits of
              None \<Rightarrow> None
            | Some final_chunks' \<Rightarrow>
                if no_new then split_loop recurse no_new ss (final_chunks' @ [s]) []
                else (case recurse s of
                        None \<Rightarrow> None
                      | Some other_info \<Rightarrow> split_loop recurse no_new ss (final_chunks' @ other_info) [])))"

lemma split_loop_cong [fundef_cong]:
  assumes "\<And>s. s \<in> set splits \<Longrightarrow> f s = g s" "no_new = no_new'" "splits = splits'"
    "final = final'" "good = good'"
  shows "split_loop f no_new splits final good = split_loop g no_new' splits' final' good'"
  using assms(1) unfolding assms(2-5)[symmetric]
  by (induction splits arbitrary: final good) (auto split: option.splits)

lemma scan_separators_shorter:
  "scan_separators s seps = Some (sep, rest) \<Longrightarrow> length rest < length seps"
  by (induction seps) (auto split: if_splits)

lemma choose_separator_shorter:
  "seps \<noteq> [] \<Longrightarrow> length (snd (choose_separator s seps)) < length seps"
  by (cases "scan_separators s seps")
     (auto simp: choose_separator_def dest: scan_separators_shorter)

function split_text_rec :: "str \<Rightarrow> str list \<Rightarrow> str list option" where
  "split_text_rec s seps =
     (if seps = [] then None
      else
        let separator = fst (choose_separator s seps);
            new_separators = snd (choose_separator s seps);
            splits = split_text_with_regex s separator
        in split_loop (\<lambda>piece. split_text_rec piece new_separators) (new_separators = []) splits [] [])"
  by pat_completeness auto
termination
  by (relation "measure (\<lambda>(s, seps). length seps)") (auto simp: choose_separator_shorter)

definition split_text :: "str \<Rightarrow> str list option" where
  "split_text s = split_text_rec s separators"

subsection \<open>Properties of the chunker\<close>

declare pieces.simps [simp del] split_text_rec.simps [simp del]

lemma pieces_concat:
  "\<exists>first others. pieces sep acc s = first # others \<and> first @ concat (map (\<lambda>p. sep @ p) others) = acc @ s"
proof (induction sep acc s rule: pieces.induct)
  case (1 sep acc s)
  show ?case
  proof (cases "s = []")
    case True
    then show ?thesis by (subst pieces.simps) simp
  next
    case False
    show ?thesis
    proof (cases "sep \<noteq> [] \<and> take (length sep) s = sep")
      case True
      from "1.IH"(1)[OF False True] obtain first others
        where IH: "pieces sep [] (drop (length sep) s) = first # others"
          "first @ concat (map (\<lambda>p. sep @ p) others) = [] @ drop (length sep) s" by blast
      have "s = sep @ drop (length sep) s" using True by (metis append_take_drop_id)
      then have "acc @ concat (map (\<lambda>p. sep @ p) (first # others)) = acc @ s"
        using IH(2) by simp
      moreover have "pieces sep acc s = acc # first # others"
        using False True IH(1) by (subst pieces.simps) simp
      ultimately show ?thesis by blast
    next
      case nosep: False
      from "1.IH"(2)[OF False nosep] obtain first others
        where IH: "pieces sep (acc @ [hd s]) (tl s) = first # others"
          "first @ concat (map (\<lambda>p. sep @ p) others) = (acc @ [hd s]) @ tl s" by blast
      have "pieces sep acc s = first # others"
        using False nosep IH(1) by (subst pieces.simps) auto
      moreover have "(acc @ [hd s]) @ tl s = acc @ s" using False by simp
      ultimately show ?thesis using IH(2) by auto
    qed
  qed
qed

lemma concat_filter_nonempty: "concat (filter (\<lambda>x. x \<noteq> []) xs) = concat xs"
  by (induction xs) auto

lemma concat_singletons: "concat (map (\<lambda>c. [c]) s) = s"
  by (induction s) auto

lemma concat_split_text_with_regex: "concat (split_text_with_regex s sep) = s"
proof (cases "sep = []")
  case True
  then show ?thesis by (simp add: split_text_with_regex_def concat_filter_nonempty concat_singletons)
next
  case False
  from pieces_concat[of sep "[]" s] obtain first others
    where "pieces sep [] s = first # others" "first @ concat (map (\<lambda>p. sep @ p) others) = s"
    by auto
  then show ?thesis using False
    by (simp add: split_text_with_regex_def concat_filter_nonempty del: filter.simps)
qed

lemma split_text_with_regex_nonempty: "x \<in> set (split_text_with_regex s sep) \<Longrightarrow> x \<noteq> []"
  by (simp add: split_text_with_regex_def Let_def)



lemma str_join_empty: "str_join [] xs = concat xs"
  by (induction "[] :: str" xs rule: str_join.induct) auto





definition total_of :: "str list \<Rightarrow> int" where
  "total_of cur = int (length (concat cur))"

lemma total_of_simps:
  "total_of [] = 0"
  "total_of (c # cs) = int (length c) + total_of cs"
  "total_of (cur @ [d]) = total_of cur + int (length d)"
  "total_of (cur @ ds) = total_of cur + total_of ds"
  by (simp_all add: total_of_def)

lemma total_of_nonneg: "0 \<le> total_of cur"
  by (simp add: total_of_def)















subsection \<open>Pieces that fit into one document\<close>

lemma merge_step_fits:
  assumes "total_of cur + int (length d) \<le> chunk_size"
  shows "merge_step [] d (docs, cur, total_of cur) = Some (docs, cur @ [d], total_of (cur @ [d]))"
  using assms by (simp add: merge_step_def Let_def total_of_simps)

lemma merge_loop_fill:
  "total_of cur + total_of ds \<le> chunk_size \<Longrightarrow>
     merge_loop [] (ds @ rest) (docs, cur, total_of cur) = merge_loop [] rest (docs, cur @ ds, total_of (cur @ ds))"
proof (induction ds arbitrary: cur)
  case Nil
  then show ?case by simp
next
  case (Cons d ds)
  have fits: "total_of cur + int (length d) \<le> chunk_size"
    using Cons.prems total_of_nonneg[of ds] by (simp add: total_of_simps)
  have "total_of (cur @ [d]) + total_of ds \<le> chunk_size"
    using Cons.prems by (simp add: total_of_simps)
  from Cons.IH[OF this] merge_step_fits[OF fits, of docs] show ?case by simp
qed

lemma merge_loop_fits:
  assumes "total_of cur + total_of ds \<le> chunk_size"
  shows "merge_loop [] ds (docs, cur, total_of cur) = Some (append_doc docs (join_docs (cur @ ds) []))"
  using merge_loop_fill[OF assms, of "[]" docs] by simp

lemma split_loop_all_short:
  "\<forall>s\<in>set splits. int (length s) < chunk_size \<Longrightarrow>
     split_loop recurse no_new splits final good = flush_good final (good @ splits)"
  by (induction splits arbitrary: good) auto

lemma join_docs_strip:
  "join_docs cur [] = (if py_strip (concat cur) = [] then None else Some (py_strip (concat cur)))"
  by (simp add: join_docs_def str_join_empty Let_def)

lemma length_le_concat: "x \<in> set xs \<Longrightarrow> length x \<le> length (concat xs)"
  by (induction xs) auto

lemma split_text_rec_short:
  assumes "int (length s) < chunk_size" and "seps \<noteq> []"
  shows "split_text_rec s seps = Some (if py_strip s = [] then [] else [py_strip s])"
proof -
  define splits where "splits = split_text_with_regex s (fst (choose_separator s seps))"
  have cat: "concat splits = s" unfolding splits_def by (rule concat_split_text_with_regex)
  have short: "\<forall>x\<in>set splits. int (length x) < chunk_size"
  proof
    fix x assume "x \<in> set splits"
    from length_le_concat[OF this] have "length x \<le> length s" by (simp add: cat)
    with assms(1) show "int (length x) < chunk_size" by simp
  qed
  have "split_text_rec s seps = flush_good [] splits"
    using assms(2) split_loop_all_short[OF short, of _ _ "[]" "[]"]
    by (subst split_text_rec.simps) (simp add: Let_def splits_def)
  also have "\<dots> = Some (if py_strip s = [] then [] else [py_strip s])"
  proof (cases "splits = []")
    case True
    with cat have "s = []" by simp
    with True show ?thesis by (simp add: flush_good_def py_strip_def)
  next
    case False
    have "total_of [] + total_of splits \<le> chunk_size"
      using assms(1) by (simp add: total_of_def cat)
    from merge_loop_fits[OF this, of "[]"]
    have "merge_splits splits [] = Some (append_doc [] (join_docs splits []))"
      by (simp add: merge_splits_def total_of_simps)
    with False show ?thesis by (simp add: flush_good_def join_docs_strip cat append_doc_def)
  qed
  finally show ?thesis .
qed


subsection \<open>Text without separators: a sliding window over the characters\<close>


















text \<open>
  Claim C9, as amended.  For every text shorter than 490 characters that is not blank, the
  chunker returns exactly one chunk, the text stripped of surrounding whitespace, with no
  overlap; for a blank text (empty or whitespace only) it returns no chunk.
\<close>

theorem split_text_short:
  "int (length s) < chunk_size \<Longrightarrow>
     split_text s = Some (if py_strip s = [] then [] else [py_strip s])"
  unfolding split_text_def by (rule split_text_rec_short) (simp_all add: separators_def)

theorem split_text_short_witness:
  "int (length (ustr ''Report one'')) < chunk_size
   \<and> split_text (ustr ''Report one'') = Some [ustr ''Report one'']"
proof -
  have h: "int (length (ustr ''Report one'')) < chunk_size" by (simp add: chunk_size_def ustr_def)
  have "py_strip (ustr ''Report one'') = ustr ''Report one''" by code_simp
  moreover have "ustr ''Report one'' \<noteq> []" by (simp add: ustr_def)
  ultimately show ?thesis using split_text_short[OF h] h by simp
qed

text \<open>The empty text and a text of two spaces are shorter than 490 and give no chunk.\<close>

theorem split_text_short_counterexample:
  "int (length ([] :: str)) < chunk_size \<and> split_text [] = Some []
   \<and> int (length [32, 32 :: int]) < chunk_size \<and> split_text [32, 32] = Some []"
  by code_simp




section \<open>The document processor (local\_processor.py, process\_all\_documents\_in\_container)\<close>

text \<open>
  The external collaborators are parameters: the blob store, the document analysis
  service, the chunker, the language service and Python's \<^verbatim>\<open>str.lower\<close>.  A call that
  raises returns \<open>Inl\<close> with the exception; the language service is asked once per chunk,
  so its answer may depend on the document, the chunk index and the text sent.
\<close>

type_synonym exn = string

record chunk_data =
  chunk_id :: str
  source_document :: str
  original_chunk_content :: str
  redacted_chunk_content :: str
  key_phrases :: "str list"
  entities :: "(str \<times> str) list"

record 'bytes services =
  str_lower :: "str \<Rightarrow> str"
  character_db :: unicode_db
  text_analytics_client :: bool
  list_blobs :: "exn + str list"
  download_blob :: "str \<Rightarrow> exn + 'bytes"
  analyze_document :: "'bytes \<Rightarrow> exn + str option"
  create_documents :: "str \<Rightarrow> exn + str list"
  extract_key_phrases :: "str \<Rightarrow> nat \<Rightarrow> str \<Rightarrow> exn + str list"
  recognize_entities :: "str \<Rightarrow> nat \<Rightarrow> str \<Rightarrow> exn + (str \<times> str) list"
  upload_blob :: "str \<Rightarrow> chunk_data list \<Rightarrow> exn + unit"

text \<open>The chunker of the library, as a collaborator.\<close>

definition library_chunker :: "str \<Rightarrow> exn + str list" where
  "library_chunker s = (case split_text s of None \<Rightarrow> Inl ''IndexError'' | Some chunks \<Rightarrow> Inr chunks)"

datatype level = Info | Warning | Error

datatype event =
    Skipping_non_pdf str
  | No_text_extracted str
  | Too_short_for_language_service str nat
  | Language_client_not_initialized
  | Language_processing_failed str nat exn
  | Uploaded str str
  | Document_error str exn

fun level_of :: "event \<Rightarrow> level" where
  "level_of (Skipping_non_pdf b) = Info"
| "level_of (No_text_extracted b) = Warning"
| "level_of (Too_short_for_language_service b i) = Info"
| "level_of Language_client_not_initialized = Warning"
| "level_of (Language_processing_failed b i e) = Warning"
| "level_of (Uploaded b f) = Info"
| "level_of (Document_error b e) = Error"

text \<open>
  Step 5 of the loop over the chunks (lines 181 to 203): both result lists start empty;
  the key phrases are asked for first, then the entities; one \<^verbatim>\<open>try\<close> encloses both calls.
\<close>

definition annotate ::
  "'bytes services \<Rightarrow> str \<Rightarrow> nat \<Rightarrow> str \<Rightarrow> str list \<times> (str \<times> str) list \<times> event list" where
  "annotate sv blob_name i redacted =
     (if 10 < length (py_strip redacted) \<and> text_analytics_client sv then
        (case extract_key_phrases sv blob_name i redacted of
           Inl e \<Rightarrow> ([], [], [Language_processing_failed blob_name i e])
         | Inr phrases \<Rightarrow>
             (case recognize_entities sv blob_name i redacted of
                Inl e \<Rightarrow> (phrases, [], [Language_processing_failed blob_name i e])
              | Inr found \<Rightarrow> (phrases, found, [])))
      else if \<not> text_analytics_client sv then ([], [], [Language_client_not_initialized])
      else ([], [], [Too_short_for_language_service blob_name i]))"

definition process_chunk :: "'bytes services \<Rightarrow> str \<Rightarrow> nat \<times> str \<Rightarrow> chunk_data \<times> event list" where
  "process_chunk sv blob_name ic =
     (case ic of (i, chunk_content) \<Rightarrow>
        let redacted = redact_phi (character_db sv) chunk_content in
        case annotate sv blob_name i redacted of (phrases, found, log) \<Rightarrow>
          (\<lparr>chunk_id = format_chunk_id blob_name i,
            source_document = blob_name,
            original_chunk_content = chunk_content,
            redacted_chunk_content = redacted,
            key_phrases = phrases,
            entities = found\<rparr>, log))"

definition process_chunks :: "'bytes services \<Rightarrow> str \<Rightarrow> str list \<Rightarrow> (chunk_data \<times> event list) list" where
  "process_chunks sv blob_name chunks = map (process_chunk sv blob_name) (enumerate 0 chunks)"

definition output_filename :: "str \<Rightarrow> str" where
  "output_filename blob_name = str_replace [32] [95] (fst (splitext blob_name)) @ ustr ''_chunks.json''"

datatype outcome = Skipped | Succeeded | Failed

text \<open>
  One document (lines 126 to 235): download, analysis, the blank check, chunking, the
  chunks, the upload.  Any exception ends the document as failed; blank text ends it at the
  \<^verbatim>\<open>continue\<close> of line 153.  The result is how the document ended, the artifact it
  published if any, and what it logged.
\<close>

definition process_document ::
  "'bytes services \<Rightarrow> str \<Rightarrow> outcome \<times> (str \<times> chunk_data list) option \<times> event list" where
  "process_document sv blob_name =
     (case download_blob sv blob_name of
        Inl e \<Rightarrow> (Failed, None, [Document_error blob_name e])
      | Inr pdf_bytes \<Rightarrow>
     (case analyze_document sv pdf_bytes of
        Inl e \<Rightarrow> (Failed, None, [Document_error blob_name e])
      | Inr content \<Rightarrow>
     (let markdown_content = (case content of None \<Rightarrow> [] | Some c \<Rightarrow> c) in
      if py_strip markdown_content = [] then (Skipped, None, [No_text_extracted blob_name])
      else
     (case create_documents sv markdown_content of
        Inl e \<Rightarrow> (Failed, None, [Document_error blob_name e])
      | Inr chunks \<Rightarrow>
     (let processed = process_chunks sv blob_name chunks;
          processed_chunks_data = map fst processed;
          log = concat (map snd processed)
      in case upload_blob sv (output_filename blob_name) processed_chunks_data of
           Inl e \<Rightarrow> (Failed, None, log @ [Document_error blob_name e])
         | Inr u \<Rightarrow>
             (Succeeded, Some (output_filename blob_name, processed_chunks_data),
              log @ [Uploaded blob_name (output_filename blob_name)]))))))"

record run_state =
  document_count :: nat
  processed_successfully_count :: nat
  published :: "str \<rightharpoonup> chunk_data list"
  events :: "event list"

definition is_pdf :: "'bytes services \<Rightarrow> str \<Rightarrow> bool" where
  "is_pdf sv blob_name = endswith (str_lower sv blob_name) (ustr ''.pdf'')"

definition process_blob :: "'bytes services \<Rightarrow> run_state \<Rightarrow> str \<Rightarrow> run_state" where
  "process_blob sv st blob_name =
     (if \<not> is_pdf sv blob_name then st\<lparr>events := events st @ [Skipping_non_pdf blob_name]\<rparr>
      else
        case process_document sv blob_name of (how, artifact, log) \<Rightarrow>
          st\<lparr>document_count := document_count st + 1,
             processed_successfully_count :=
               (if how = Succeeded then processed_successfully_count st + 1
                else processed_successfully_count st),
             published :=
               (case artifact of None \<Rightarrow> published st
                | Some (name, data) \<Rightarrow> (published st)(name \<mapsto> data)),
             events := events st @ log\<rparr>)"

text \<open>
  The closing report (lines 238 to 242): either no PDF was found, or the number of
  documents processed successfully over the number of PDF documents.
\<close>

datatype summary = No_pdf_documents_found | Finished_processing nat nat

definition summary_of :: "run_state \<Rightarrow> summary" where
  "summary_of st =
     (if document_count st = 0 then No_pdf_documents_found
      else Finished_processing (processed_successfully_count st) (document_count st))"

definition initial_state :: run_state where
  "initial_state = \<lparr>document_count = 0, processed_successfully_count = 0,
                     published = Map.empty, events = []\<rparr>"

definition process_all_documents_in_container :: "'bytes services \<Rightarrow> exn + run_state \<times> summary" where
  "process_all_documents_in_container sv =
     (case list_blobs sv of
        Inl e \<Rightarrow> Inl e
      | Inr blob_list \<Rightarrow>
          (let st = foldl (process_blob sv) initial_state blob_list in Inr (st, summary_of st)))"

subsection \<open>Blank documents\<close>

text \<open>
  Claim C6, as amended.  For every PDF document whose extracted text is empty or
  whitespace only, the document processor publishes no artifact and logs one warning; the
  document is counted among the documents attempted and not among those processed
  successfully.  The report has no count of skipped or of failed documents.
\<close>

theorem blank_document_skipped:
  assumes "is_pdf sv blob_name"
    and "download_blob sv blob_name = Inr pdf_bytes"
    and "analyze_document sv pdf_bytes = Inr content"
    and "py_strip (case content of None \<Rightarrow> [] | Some c \<Rightarrow> c) = []"
  shows "process_document sv blob_name = (Skipped, None, [No_text_extracted blob_name])
       \<and> published (process_blob sv st blob_name) = published st
       \<and> processed_successfully_count (process_blob sv st blob_name) = processed_successfully_count st
       \<and> document_count (process_blob sv st blob_name) = document_count st + 1
       \<and> events (process_blob sv st blob_name) = events st @ [No_text_extracted blob_name]
       \<and> level_of (No_text_extracted blob_name) = Warning"
proof -
  have doc: "process_document sv blob_name = (Skipped, None, [No_text_extracted blob_name])"
    using assms(2-4) by (simp add: process_document_def Let_def)
  then show ?thesis using assms(1) by (simp add: process_blob_def)
qed

text \<open>A store with one PDF whose text is a single space, and the same store failing the download.\<close>

definition blank_services :: "unit services" where
  "blank_services =
     \<lparr>str_lower = (\<lambda>s. s), character_db = latin1_db, text_analytics_client = True,
      list_blobs = Inr [ustr ''a.pdf''],
      download_blob = (\<lambda>name. Inr ()),
      analyze_document = (\<lambda>b. Inr (Some [32])),
      create_documents = library_chunker,
      extract_key_phrases = (\<lambda>name i s. Inr []),
      recognize_entities = (\<lambda>name i s. Inr []),
      upload_blob = (\<lambda>name data. Inr ())\<rparr>"

definition failing_services :: "unit services" where
  "failing_services = blank_services\<lparr>download_blob := (\<lambda>name. Inl ''download failed'')\<rparr>"

definition batch_summary :: "'bytes services \<Rightarrow> summary option" where
  "batch_summary sv =
     (case process_all_documents_in_container sv of Inl e \<Rightarrow> None | Inr (st, s) \<Rightarrow> Some s)"

theorem blank_document_skipped_witness:
  "is_pdf blank_services (ustr ''a.pdf'')
   \<and> process_document blank_services (ustr ''a.pdf'') = (Skipped, None, [No_text_extracted (ustr ''a.pdf'')])"
proof -
  have 1: "is_pdf blank_services (ustr ''a.pdf'')"
    by (simp add: is_pdf_def blank_services_def endswith_def ustr_def)
  have 2: "download_blob blank_services (ustr ''a.pdf'') = Inr ()"
    and 3: "analyze_document blank_services () = Inr (Some [32])"
    by (simp_all add: blank_services_def)
  have 4: "py_strip (case Some [32] of None \<Rightarrow> [] | Some c \<Rightarrow> c) = []"
    by (simp add: py_strip_def py_isspace_def)
  from blank_document_skipped[OF 1 2 3 4] 1 show ?thesis by simp
qed

text \<open>
  The claim as it was stated has the report tell a skipped document from a failed one.
  The two runs below differ in that only: their reports are the same, 0 of 1.
\<close>

theorem blank_document_summary_counterexample:
  "batch_summary blank_services = Some (Finished_processing 0 1)
   \<and> batch_summary failing_services = Some (Finished_processing 0 1)
   \<and> fst (process_document blank_services (ustr ''a.pdf'')) = Skipped
   \<and> fst (process_document failing_services (ustr ''a.pdf'')) = Failed"
  by (simp add: batch_summary_def process_all_documents_in_container_def blank_services_def
      failing_services_def process_blob_def is_pdf_def endswith_def ustr_def process_document_def
      py_strip_def py_isspace_def initial_state_def summary_of_def Let_def)


subsection \<open>Failures of the language service\<close>











end
